theory Spec2Isabelle
  imports Main "HOL-Library.Sublist"
begin

section \<open>Go strings\<close>

text \<open>
  A Go string is a sequence of bytes; it is modelled as \<^typ>\<open>string\<close>, a list of
  8-bit characters.  The functions of package \<open>strings\<close> that the code calls are
  written out here.  Every call site of \<open>strings.Split\<close>, \<open>strings.LastIndex\<close>
  passes a one-byte separator, so these two take a \<^typ>\<open>char\<close>.
\<close>

fun HasPrefix :: "string \<Rightarrow> string \<Rightarrow> bool" where
  "HasPrefix s [] = True"
| "HasPrefix [] (p # ps) = False"
| "HasPrefix (c # cs) (p # ps) = (c = p \<and> HasPrefix cs ps)"

fun Contains :: "string \<Rightarrow> string \<Rightarrow> bool" where
  "Contains [] sub = (sub = [])"
| "Contains (c # cs) sub = (HasPrefix (c # cs) sub \<or> Contains cs sub)"

text \<open>\<open>strings.Split(s, sep)\<close> for a one-byte \<open>sep\<close>: never empty, \<open>Split "" sep = [""]\<close>.\<close>

fun Split :: "string \<Rightarrow> char \<Rightarrow> string list" where
  "Split [] sep = [[]]"
| "Split (c # cs) sep =
     (if c = sep then [] # Split cs sep
      else (case Split cs sep of
              [] \<Rightarrow> [[c]]
            | p # ps \<Rightarrow> (c # p) # ps))"

text \<open>\<open>strings.Index(s, sub)\<close>: the first position where \<open>sub\<close> starts; Go's \<open>-1\<close> is \<open>None\<close>.\<close>

fun Index :: "string \<Rightarrow> string \<Rightarrow> nat option" where
  "Index [] sub = (if sub = [] then Some 0 else None)"
| "Index (c # cs) sub =
     (if HasPrefix (c # cs) sub then Some 0
      else map_option Suc (Index cs sub))"

text \<open>\<open>strings.LastIndex(s, sep)\<close> for a one-byte \<open>sep\<close>.\<close>

fun LastIndex :: "string \<Rightarrow> char \<Rightarrow> nat option" where
  "LastIndex [] sep = None"
| "LastIndex (c # cs) sep =
     (case LastIndex cs sep of
        Some i \<Rightarrow> Some (Suc i)
      | None \<Rightarrow> (if c = sep then Some 0 else None))"

text \<open>\<open>strings.Join(elems, sep)\<close>.\<close>

fun Join :: "string list \<Rightarrow> string \<Rightarrow> string" where
  "Join [] sep = []"
| "Join [x] sep = x"
| "Join (x # y # ys) sep = x @ sep @ Join (y # ys) sep"

section \<open>Plugin references (plugin/values/plugin\_reference.go)\<close>

record PluginReference =
  ref_registry :: string
  ref_org :: string
  ref_repo :: string
  ref_name :: string
  ref_version :: string

datatype ref_error =
  InvalidOCIReference string
| MissingVersionTag string

definition NewPluginReference ::
  "string \<Rightarrow> string \<Rightarrow> string \<Rightarrow> string \<Rightarrow> string \<Rightarrow> PluginReference" where
  "NewPluginReference registry org repo name version =
     \<lparr>ref_registry = registry, ref_org = org, ref_repo = repo,
      ref_name = name, ref_version = version\<rparr>"

text \<open>The reference \<open>PluginReference{name: ref}\<close>: every other field is the zero string.\<close>

definition EmbeddedReference :: "string \<Rightarrow> PluginReference" where
  "EmbeddedReference n =
     \<lparr>ref_registry = [], ref_org = [], ref_repo = [], ref_name = n, ref_version = []\<rparr>"

definition ParsePluginReference :: "string \<Rightarrow> ref_error + PluginReference" where
  "ParsePluginReference ref =
     (if \<not> Contains ref ''/'' \<and> \<not> Contains ref '':'' then Inr (EmbeddedReference ref)
      else
        let parts = Split ref CHR ''/'' in
        if length parts < 4 then Inl (InvalidOCIReference ref)
        else
          let nameVersion = Split (parts ! (length parts - 1)) CHR '':'' in
          if length nameVersion \<noteq> 2 then Inl (MissingVersionTag ref)
          else Inr \<lparr>ref_registry = parts ! 0, ref_org = parts ! 1, ref_repo = parts ! 2,
                    ref_name = nameVersion ! 0, ref_version = nameVersion ! 1\<rparr>)"

definition IsEmbedded :: "PluginReference \<Rightarrow> bool" where
  "IsEmbedded r = (ref_registry r = [])"

text \<open>\<open>String\<close>: the name alone for an embedded reference, else \<open>%s/%s/%s/%s:%s\<close>.\<close>

definition String :: "PluginReference \<Rightarrow> string" where
  "String r =
     (if IsEmbedded r then ref_name r
      else ref_registry r @ ''/'' @ ref_org r @ ''/'' @ ref_repo r @ ''/'' @
           ref_name r @ '':'' @ ref_version r)"

definition Equals :: "PluginReference \<Rightarrow> PluginReference \<Rightarrow> bool" where
  "Equals r other =
     (ref_registry r = ref_registry other \<and>
      ref_org r = ref_org other \<and>
      ref_repo r = ref_repo other \<and>
      ref_name r = ref_name other \<and>
      ref_version r = ref_version other)"

text \<open>
  The references on which parsing the canonical string gives the reference back: an
  embedded one carries a name only, free of \<open>/\<close> and \<open>:\<close>; a full one has no \<open>/\<close>
  in any component and no \<open>:\<close> in name and version.
\<close>

definition canonical_ref :: "PluginReference \<Rightarrow> bool" where
  "canonical_ref r =
     (if ref_registry r = []
      then ref_org r = [] \<and> ref_repo r = [] \<and> ref_version r = [] \<and>
           CHR ''/'' \<notin> set (ref_name r) \<and> CHR '':'' \<notin> set (ref_name r)
      else CHR ''/'' \<notin> set (ref_registry r) \<and> CHR ''/'' \<notin> set (ref_org r) \<and>
           CHR ''/'' \<notin> set (ref_repo r) \<and> CHR ''/'' \<notin> set (ref_name r) \<and>
           CHR ''/'' \<notin> set (ref_version r) \<and>
           CHR '':'' \<notin> set (ref_name r) \<and> CHR '':'' \<notin> set (ref_version r))"

section \<open>Digests and the plugin aggregate\<close>

record Digest =
  algorithm :: string
  digest_value :: string

text \<open>The zero value \<open>Digest{}\<close>.\<close>

definition EmptyDigest :: Digest where
  "EmptyDigest = \<lparr>algorithm = [], digest_value = []\<rparr>"

definition DigestEquals :: "Digest \<Rightarrow> Digest \<Rightarrow> bool" where
  "DigestEquals d other = (algorithm d = algorithm other \<and> digest_value d = digest_value other)"

record PluginMetadata =
  meta_name :: string
  meta_version :: string
  meta_description :: string
  meta_capabilities :: "string list"

record Plugin =
  reference :: PluginReference
  digest :: Digest
  metadata :: PluginMetadata

text \<open>\<open>IntegrityError{Expected, Actual}\<close>.\<close>

datatype integrity_error = IntegrityError Digest Digest

definition VerifyIntegrity :: "Plugin \<Rightarrow> Digest \<Rightarrow> integrity_error option" where
  "VerifyIntegrity p expected =
     (if \<not> DigestEquals (digest p) expected
      then Some (IntegrityError expected (digest p))
      else None)"

definition VerifyDigest :: "Plugin \<Rightarrow> Digest \<Rightarrow> integrity_error option" where
  "VerifyDigest plugin expected = VerifyIntegrity plugin expected"

text \<open>
  The digest step of \<open>PluginService.LoadPlugin\<close>: the service is asked only when the
  expected digest has a value.
\<close>

definition LoadPlugin_verify :: "Plugin \<Rightarrow> Digest \<Rightarrow> integrity_error option" where
  "LoadPlugin_verify plugin expectedDigest =
     (if digest_value expectedDigest \<noteq> [] then VerifyDigest plugin expectedDigest else None)"

section \<open>Grant sets\<close>

text \<open>
  \<open>hostfunc.GrantSet\<close> is declared by the ABI package; the records list the fields the
  code under verification reads.  A capability struct holds one list (\<open>Network.Rules\<close>,
  \<open>FS.Rules\<close>, \<open>Env.Variables\<close>, \<open>Exec.Commands\<close>) behind a pointer that may be nil:
  the field is that list, \<open>None\<close> for the nil pointer.
\<close>

record NetworkRule =
  Hosts :: "string list"
  Ports :: "string list"

record FileSystemRule =
  Read :: "string list"
  Write :: "string list"

record GrantSet =
  Network :: "NetworkRule list option"
  FS :: "FileSystemRule list option"
  Env :: "string list option"
  Exec :: "string list option"

text \<open>\<open>&hostfunc.GrantSet{}\<close>: every capability pointer nil.\<close>

definition EmptyGrantSet :: GrantSet where
  "EmptyGrantSet = \<lparr>Network = None, FS = None, Env = None, Exec = None\<rparr>"

section \<open>Risk analysis (capability/risk.go)\<close>

text \<open>\<open>type RiskLevel int\<close> with the constants numbered by \<open>iota\<close>.\<close>

type_synonym RiskLevel = int

definition RiskNone :: RiskLevel where "RiskNone = 0"
definition RiskLow :: RiskLevel where "RiskLow = 1"
definition RiskMedium :: RiskLevel where "RiskMedium = 2"
definition RiskHigh :: RiskLevel where "RiskHigh = 3"
definition RiskCritical :: RiskLevel where "RiskCritical = 4"

record RiskFactor =
  Description :: string
  Rule :: string
  Level :: RiskLevel

record RiskReport =
  RiskFactors :: "RiskFactor list"
  ReportLevel :: RiskLevel

text \<open>The closure \<open>addFactor\<close>, with the report it updates passed in and returned.\<close>

definition addFactor :: "RiskReport \<Rightarrow> RiskLevel \<Rightarrow> string \<Rightarrow> string \<Rightarrow> RiskReport" where
  "addFactor report level desc rule =
     (if level > RiskNone then
        let report1 = report\<lparr>RiskFactors := RiskFactors report @
                        [\<lparr>Description = desc, Rule = rule, Level = level\<rparr>]\<rparr>
        in if level > ReportLevel report1 then report1\<lparr>ReportLevel := level\<rparr> else report1
      else report)"

text \<open>The inner loop over \<open>rule.Hosts\<close>, leaving at the first wildcard.\<close>

fun isWildcardHost :: "string list \<Rightarrow> bool" where
  "isWildcardHost [] = False"
| "isWildcardHost (h # hs) =
     (if h = ''*'' \<or> h = ''0.0.0.0'' then True else isWildcardHost hs)"

text \<open>\<open>fmt\<close> prints a \<open>[]string\<close> under \<open>%s\<close> and \<open>%v\<close> as \<open>[a b c]\<close>.\<close>

definition fmt_strings :: "string list \<Rightarrow> string" where
  "fmt_strings xs = ''['' @ Join xs '' '' @ '']''"

definition analyzeNetworkRule :: "RiskReport \<Rightarrow> NetworkRule \<Rightarrow> RiskReport" where
  "analyzeNetworkRule report rule =
     (let ruleStr = ''Network: '' @ fmt_strings (Hosts rule) @ '':'' @ fmt_strings (Ports rule)
      in if isWildcardHost (Hosts rule)
         then addFactor report RiskCritical ''Unrestricted network access'' ruleStr
         else addFactor report RiskMedium ''Outbound network access'' ruleStr)"

definition analyzeFSRule :: "RiskReport \<Rightarrow> FileSystemRule \<Rightarrow> RiskReport" where
  "analyzeFSRule report rule =
     (let report1 =
            (if length (Write rule) > 0
             then addFactor report RiskHigh ''Filesystem write access''
                    (''FS Write: '' @ fmt_strings (Write rule))
             else report)
      in if length (Read rule) > 0
         then addFactor report1 RiskMedium ''Filesystem read access''
                (''FS Read: '' @ fmt_strings (Read rule))
         else report1)"

definition AnalyzeRisk :: "GrantSet option \<Rightarrow> RiskReport" where
  "AnalyzeRisk grants =
     (let report = \<lparr>RiskFactors = [], ReportLevel = RiskNone\<rparr> in
      case grants of
        None \<Rightarrow> report
      | Some g \<Rightarrow>
          let report1 = (case Network g of
                           None \<Rightarrow> report
                         | Some rules \<Rightarrow> foldl analyzeNetworkRule report rules);
              report2 = (case FS g of
                           None \<Rightarrow> report1
                         | Some rules \<Rightarrow> foldl analyzeFSRule report1 rules);
              report3 = (case Exec g of
                           None \<Rightarrow> report2
                         | Some cmds \<Rightarrow>
                             if length cmds > 0
                             then addFactor report2 RiskCritical ''Arbitrary command execution''
                                    (''Exec: '' @ fmt_strings cmds)
                             else report2);
              report4 = (case Env g of
                           None \<Rightarrow> report3
                         | Some vars \<Rightarrow>
                             if length vars > 0
                             then addFactor report3 RiskLow ''Environment variable access''
                                    (''Env: '' @ fmt_strings vars)
                             else report3)
          in report4)"

text \<open>
  The classification in the specification's words: the levels of the factors, rule by
  rule, in the order network, filesystem (write before read), exec, env.
\<close>

definition network_rule_level :: "NetworkRule \<Rightarrow> RiskLevel" where
  "network_rule_level rule =
     (if ''*'' \<in> set (Hosts rule) \<or> ''0.0.0.0'' \<in> set (Hosts rule)
      then RiskCritical else RiskMedium)"

definition fs_rule_levels :: "FileSystemRule \<Rightarrow> RiskLevel list" where
  "fs_rule_levels rule =
     (if Write rule = [] then [] else [RiskHigh]) @ (if Read rule = [] then [] else [RiskMedium])"

definition classified_levels :: "GrantSet \<Rightarrow> RiskLevel list" where
  "classified_levels g =
     (case Network g of None \<Rightarrow> [] | Some rules \<Rightarrow> map network_rule_level rules) @
     (case FS g of None \<Rightarrow> [] | Some rules \<Rightarrow> concat (map fs_rule_levels rules)) @
     (case Exec g of None \<Rightarrow> [] | Some cmds \<Rightarrow> if cmds = [] then [] else [RiskCritical]) @
     (case Env g of None \<Rightarrow> [] | Some vars \<Rightarrow> if vars = [] then [] else [RiskLow])"

section \<open>Paths (package path/filepath on Unix)\<close>

text \<open>
  The repository is modelled on a Unix host: the path separator is \<open>/\<close>, there is no
  volume name, and \<open>filepath.IsAbs\<close> tests for a leading separator.
\<close>

definition PathSeparator :: string where
  "PathSeparator = ''/''"

definition IsAbs :: "string \<Rightarrow> bool" where
  "IsAbs path = HasPrefix path ''/''"

text \<open>
  \<open>filepath.Clean\<close> follows the library's loop: \<open>rest\<close> is the unread input,
  \<open>out\<close> the buffer written so far (its length is the library's \<open>w\<close>), and
  \<open>dotdot\<close> the buffer index below which a \<open>..\<close> may not backtrack.
\<close>

fun backtrack :: "string \<Rightarrow> nat \<Rightarrow> nat \<Rightarrow> nat" where
  "backtrack out dotdot w =
     (if w > dotdot \<and> out ! w \<noteq> CHR ''/'' then backtrack out dotdot (w - 1) else w)"

declare backtrack.simps [simp del]

fun is_dot :: "string \<Rightarrow> bool" where
  "is_dot [c] = (c = CHR ''.'')"
| "is_dot (c # d # r) = (c = CHR ''.'' \<and> d = CHR ''/'')"
| "is_dot [] = False"

fun is_dotdot :: "string \<Rightarrow> bool" where
  "is_dotdot [c, d] = (c = CHR ''.'' \<and> d = CHR ''.'')"
| "is_dotdot (c # d # e # r) = (c = CHR ''.'' \<and> d = CHR ''.'' \<and> e = CHR ''/'')"
| "is_dotdot r = False"

function clean_loop :: "bool \<Rightarrow> string \<Rightarrow> string \<Rightarrow> nat \<Rightarrow> string" where
  "clean_loop rooted [] out dotdot = out"
| "clean_loop rooted (c # cs) out dotdot =
     (if c = CHR ''/'' then clean_loop rooted cs out dotdot
      else if is_dot (c # cs) then clean_loop rooted cs out dotdot
      else if is_dotdot (c # cs) then
        (if length out > dotdot then
           clean_loop rooted (tl cs) (take (backtrack out dotdot (length out - 1)) out) dotdot
         else if \<not> rooted then
           (let out1 = (if length out > 0 then out @ ''/'' else out) @ ''..''
            in clean_loop rooted (tl cs) out1 (length out1))
         else clean_loop rooted (tl cs) out dotdot)
      else
        (let out1 = (if rooted \<and> length out \<noteq> 1 \<or> \<not> rooted \<and> length out \<noteq> 0
                     then out @ ''/'' else out)
         in clean_loop rooted (dropWhile (\<lambda>x. x \<noteq> CHR ''/'') cs)
              (out1 @ c # takeWhile (\<lambda>x. x \<noteq> CHR ''/'') cs) dotdot))"
  by pat_completeness auto
termination
  by (relation "measure (\<lambda>(rooted, rest, out, dotdot). length rest)")
     (auto simp: less_Suc_eq_le length_dropWhile_le intro: le_trans [OF diff_le_self])

declare clean_loop.simps [simp del]

definition Clean :: "string \<Rightarrow> string" where
  "Clean path =
     (if path = [] then ''.''
      else
        let rooted = (hd path = CHR ''/'');
            out = (if rooted then clean_loop True (tl path) ''/'' 1
                   else clean_loop False path [] 0)
        in if out = [] then ''.'' else out)"

text \<open>\<open>filepath.Join\<close>: from the first non-empty element on, joined by \<open>/\<close> and cleaned.\<close>

fun filepath_Join :: "string list \<Rightarrow> string" where
  "filepath_Join [] = []"
| "filepath_Join (e # es) =
     (if e \<noteq> [] then Clean (Join (e # es) ''/'') else filepath_Join es)"

declare filepath_Join.simps [simp del]

text \<open>
  What a path denotes, read lexically (symbolic links apart): starting from the root
  directory for an absolute path and from the working directory for a relative one, go
  through the components in order; an empty component and \<open>.\<close> stay, \<open>..\<close> leaves the
  directory entered last, and a name enters a directory.  The place reached is the
  number of steps taken above the starting directory followed by the names entered
  from there.  Above the root directory there is nothing, so \<open>..\<close> stays there.
\<close>

fun walk :: "bool \<Rightarrow> nat \<times> string list \<Rightarrow> string \<Rightarrow> nat \<times> string list" where
  "walk rooted (ups, names) c =
     (if c = [] \<or> c = ''.'' then (ups, names)
      else if c = ''..'' then
        (if names \<noteq> [] then (ups, butlast names)
         else if rooted then (ups, names)
         else (Suc ups, names))
      else (ups, names @ [c]))"

declare walk.simps [simp del]

definition resolve :: "string \<Rightarrow> bool \<times> nat \<times> string list" where
  "resolve path = (IsAbs path, foldl (walk (IsAbs path)) (0, []) (Split path CHR ''/''))"

text \<open>
  \<open>p\<close> lies under \<open>root\<close>: both start from the same directory and climb equally far
  above it, and the names of \<open>root\<close> begin the names of \<open>p\<close>.
\<close>

definition lies_under :: "string \<Rightarrow> string \<Rightarrow> bool" where
  "lies_under root p =
     (case (resolve root, resolve p) of
        ((a, u, cs), (b, v, ds)) \<Rightarrow> a = b \<and> u = v \<and> prefix cs ds)"

text \<open>A root that only climbs: a relative path that denotes an ancestor of the working directory.\<close>

definition climbs_only :: "string \<Rightarrow> bool" where
  "climbs_only root = (case resolve root of (a, u, cs) \<Rightarrow> 0 < u \<and> cs = [])"

text \<open>
  For the proofs about \<open>Clean\<close>: a name proper is a component that enters a directory;
  \<open>enc\<close> is the buffer of the loop for a place, \<open>floor_of\<close> the value of \<open>dotdot\<close>
  that goes with it, and \<open>render\<close> the cleaned path of a place.  A place is normal when
  its names are proper and, under the root directory, nothing is climbed.
\<close>

definition proper :: "string \<Rightarrow> bool" where
  "proper c = (c \<noteq> [] \<and> CHR ''/'' \<notin> set c \<and> c \<noteq> ''.'' \<and> c \<noteq> ''..'')"

definition enc :: "bool \<Rightarrow> nat \<times> string list \<Rightarrow> string" where
  "enc rooted st =
     (if rooted then ''/'' @ Join (snd st) ''/''
      else Join (replicate (fst st) ''..'' @ snd st) ''/'')"

definition floor_of :: "bool \<Rightarrow> nat \<Rightarrow> nat" where
  "floor_of rooted u = (if rooted then 1 else length (Join (replicate u ''..'') ''/''))"

definition render :: "bool \<times> nat \<times> string list \<Rightarrow> string" where
  "render t = (case t of (a, st) \<Rightarrow> if enc a st = [] then ''.'' else enc a st)"

definition normal :: "bool \<Rightarrow> nat \<times> string list \<Rightarrow> bool" where
  "normal rooted st = ((\<forall>c \<in> set (snd st). proper c) \<and> (rooted \<longrightarrow> fst st = 0))"

section \<open>The filesystem plugin repository (plugin/repository/fs\_repository.go)\<close>

text \<open>
  The filesystem is the environment: the operations the repository issues are collected
  in order, and \<open>fails\<close> tells which of them return an error.
\<close>

datatype fs_op =
  MkdirAll string
| Create string
| CopyWasm string
| EncodeMetadata string
| WriteFile string
| RemoveAll string

datatype repo_error =
  AbsolutePathViolation string
| PathTraversalViolation string
| FSError fs_op

definition pluginPath :: "string \<Rightarrow> PluginReference \<Rightarrow> repo_error + string" where
  "pluginPath root ref =
     (let refStr = String ref in
      if IsAbs refStr then Inl (AbsolutePathViolation refStr)
      else
        let fullPath = filepath_Join [root, refStr];
            cleanRoot = Clean root;
            cleanPath = Clean fullPath
        in if \<not> HasPrefix cleanPath (cleanRoot @ PathSeparator) \<and> cleanPath \<noteq> cleanRoot
           then Inl (PathTraversalViolation refStr)
           else Inr cleanPath)"

text \<open>Run the operations in order, stopping at the first that fails.\<close>

fun run_ops :: "(fs_op \<Rightarrow> bool) \<Rightarrow> fs_op list \<Rightarrow> repo_error option \<times> fs_op list" where
  "run_ops fails [] = (None, [])"
| "run_ops fails (op # ops) =
     (if fails op then (Some (FSError op), [op])
      else (case run_ops fails ops of (e, done) \<Rightarrow> (e, op # done)))"

definition Store ::
  "(fs_op \<Rightarrow> bool) \<Rightarrow> string \<Rightarrow> Plugin \<Rightarrow> (repo_error + string) \<times> fs_op list" where
  "Store fails root plugin =
     (case pluginPath root (reference plugin) of
        Inl err \<Rightarrow> (Inl err, [])
      | Inr path \<Rightarrow>
          let wasmPath = filepath_Join [path, ''plugin.wasm''] in
          (case run_ops fails
                  [MkdirAll path,
                   Create (Clean wasmPath),
                   CopyWasm (Clean wasmPath),
                   Create (Clean (filepath_Join [path, ''metadata.json''])),
                   EncodeMetadata (Clean (filepath_Join [path, ''metadata.json''])),
                   WriteFile (filepath_Join [path, ''digest.txt''])] of
             (Some err, done) \<Rightarrow> (Inl err, done)
           | (None, done) \<Rightarrow> (Inr wasmPath, done)))"

definition Delete ::
  "(fs_op \<Rightarrow> bool) \<Rightarrow> string \<Rightarrow> PluginReference \<Rightarrow> repo_error option \<times> fs_op list" where
  "Delete fails root ref =
     (case pluginPath root ref of
        Inl err \<Rightarrow> (Some err, [])
      | Inr path \<Rightarrow> run_ops fails [RemoveAll path])"

section \<open>The retrying transport (netutil/retry.go)\<close>

text \<open>
  The underlying transport and the request's \<open>GetBody\<close> are the environment: for each
  attempt number it tells what the attempt meets.  \<open>GetBodyFailed\<close>: \<open>req.GetBody\<close>
  returns an error, and the transport is not called.  \<open>TransportError ssrf\<close>: the
  transport returns an error, \<open>ssrf\<close> telling whether \<open>IsSSRFBlockedError\<close> holds of it.
  \<open>Response status\<close>: the transport returns a response with that status code.
\<close>

datatype outcome =
  GetBodyFailed
| TransportError bool
| Response int

datatype rt_error =
  GetBodyErr
| TransportErr bool

text \<open>The pair \<open>(*http.Response, error)\<close> returned; \<open>NilResult\<close> is \<open>(nil, nil)\<close>.\<close>

datatype rt_result =
  RespResult int
| ErrResult rt_error
| NilResult

text \<open>
  What \<open>RoundTrip\<close> does to its environment, in order: a call of the underlying
  transport at an attempt, and the point before a retry where \<open>OnRetry\<close>, if set, is
  called with the 1-based attempt number and the status code, and the sleep follows.
  The wait duration is not modelled: it decides how long the sleep is, not whether
  there is a retry.
\<close>

datatype rt_event =
  TransportCall int
| OnRetryCall int int

record RetryTransport =
  MaxRetries :: int

definition isRetryableStatus :: "int \<Rightarrow> bool" where
  "isRetryableStatus statusCode =
     (if statusCode = 429 \<or> statusCode = 502 \<or> statusCode = 503 \<or> statusCode = 504
      then True else False)"

text \<open>
  The loop \<open>for attempt := 0; attempt <= maxRetries; attempt++\<close> with its variables
  \<open>lastErr\<close> and \<open>lastResp\<close>; \<open>trace\<close> collects the events so far.  The attempt
  counter is a Go \<open>int\<close>; it is modelled as an unbounded integer, which agrees with the
  64-bit counter as long as \<open>maxRetries\<close> is below \<open>2^63 - 1\<close>.
\<close>

function retry_loop ::
  "(int \<Rightarrow> outcome) \<Rightarrow> int \<Rightarrow> int \<Rightarrow> rt_error option \<Rightarrow> int option \<Rightarrow> rt_event list
     \<Rightarrow> rt_result \<times> rt_event list" where
  "retry_loop env maxRetries attempt lastErr lastResp trace =
     (if attempt \<le> maxRetries then
        (case env attempt of
           GetBodyFailed \<Rightarrow> (ErrResult GetBodyErr, trace)
         | TransportError ssrf \<Rightarrow>
             (let trace1 = trace @ [TransportCall attempt] in
              if ssrf then (ErrResult (TransportErr ssrf), trace1)
              else if attempt < maxRetries then
                retry_loop env maxRetries (attempt + 1) (Some (TransportErr ssrf)) lastResp
                  (trace1 @ [OnRetryCall (attempt + 1) 0])
              else (ErrResult (TransportErr ssrf), trace1))
         | Response statusCode \<Rightarrow>
             (let trace1 = trace @ [TransportCall attempt] in
              if \<not> isRetryableStatus statusCode then (RespResult statusCode, trace1)
              else if statusCode \<ge> 400 \<and> statusCode < 500 \<and> statusCode \<noteq> 429
                then (RespResult statusCode, trace1)
              else if attempt < maxRetries then
                retry_loop env maxRetries (attempt + 1) None (Some statusCode)
                  (trace1 @ [OnRetryCall (attempt + 1) statusCode])
              else
                retry_loop env maxRetries (attempt + 1) None (Some statusCode) trace1))
      else
        (case lastResp of
           Some statusCode \<Rightarrow> (RespResult statusCode, trace)
         | None \<Rightarrow>
             (case lastErr of
                Some err \<Rightarrow> (ErrResult err, trace)
              | None \<Rightarrow> (NilResult, trace))))"
  by pat_completeness auto
termination
  by (relation "measure (\<lambda>(env, maxRetries, attempt, lastErr, lastResp, trace).
                   nat (maxRetries + 1 - attempt))") auto

declare retry_loop.simps [simp del]

text \<open>The local \<open>maxRetries\<close>: the field, or its default 3 when the field is zero.\<close>

definition maxRetries_of :: "RetryTransport \<Rightarrow> int" where
  "maxRetries_of t = (if MaxRetries t = 0 then 3 else MaxRetries t)"

definition RoundTrip :: "RetryTransport \<Rightarrow> (int \<Rightarrow> outcome) \<Rightarrow> rt_result \<times> rt_event list" where
  "RoundTrip t env = retry_loop env (maxRetries_of t) 0 None None []"

text \<open>The number of calls of the underlying transport in a trace.\<close>

fun transport_calls :: "rt_event list \<Rightarrow> nat" where
  "transport_calls [] = 0"
| "transport_calls (TransportCall a # es) = Suc (transport_calls es)"
| "transport_calls (OnRetryCall a s # es) = transport_calls es"

text \<open>
  The outcomes after which the specification allows a retry: a transport error that is
  not SSRF-blocked, or a response with status 429, 502, 503 or 504.
\<close>

fun retry_trigger :: "outcome \<Rightarrow> bool" where
  "retry_trigger GetBodyFailed = False"
| "retry_trigger (TransportError ssrf) = (\<not> ssrf)"
| "retry_trigger (Response s) = (s = 429 \<or> s = 502 \<or> s = 503 \<or> s = 504)"

section \<open>Size-limited reading (netutil/limitreader.go, http.go)\<close>

text \<open>
  The errors a read can return: \<open>io.EOF\<close>, the typed
  \<open>SizeLimitExceededError{Limit, Read}\<close>, or some other failure of the underlying
  reader.
\<close>

datatype read_error =
  EOF
| SizeLimitExceededError int int
| ReadFailure string

text \<open>
  The underlying \<open>io.Reader\<close> is the environment.  It is a stream that hands out its
  bytes in chunks (a read returns at most the chunk at the head, an empty chunk being a
  read that returns \<open>0, nil\<close>) and, the chunks exhausted, returns no byte and the error
  \<open>at_end\<close>: \<open>EOF\<close> for a stream that ends well.
\<close>

record Stream =
  pending :: "string list"
  at_end :: read_error

text \<open>\<open>Read(p)\<close> of the underlying reader with \<open>len(p) = k\<close>: bytes, error, new state.\<close>

definition stream_Read :: "Stream \<Rightarrow> nat \<Rightarrow> string \<times> read_error option \<times> Stream" where
  "stream_Read r k =
     (case pending r of
        [] \<Rightarrow> ([], Some (at_end r), r)
      | c # cs \<Rightarrow>
          if length c \<le> k then (c, None, r\<lparr>pending := cs\<rparr>)
          else (take k c, None, r\<lparr>pending := drop k c # cs\<rparr>))"

record LimitedReader =
  lr_R :: Stream
  lr_N :: int
  lr_Limit :: int
  lr_read :: int

definition NewLimitedReader :: "Stream \<Rightarrow> int \<Rightarrow> LimitedReader" where
  "NewLimitedReader r limit = \<lparr>lr_R = r, lr_N = limit, lr_Limit = limit, lr_read = 0\<rparr>"

text \<open>\<open>LimitedReader.Read(p)\<close> with \<open>len(p) = k\<close>.\<close>

definition LimitedReader_Read :: "LimitedReader \<Rightarrow> nat \<Rightarrow> string \<times> read_error option \<times> LimitedReader" where
  "LimitedReader_Read l k =
     (if lr_N l \<le> 0 then ([], Some (SizeLimitExceededError (lr_Limit l) (lr_read l)), l)
      else
        let k1 = (if int k > lr_N l then nat (lr_N l) else k) in
        case stream_Read (lr_R l) k1 of (bs, err, r1) \<Rightarrow>
          let l1 = l\<lparr>lr_R := r1, lr_N := lr_N l - int (length bs),
                     lr_read := lr_read l + int (length bs)\<rparr>
          in if lr_N l1 = 0 \<and> err = None then
               (case stream_Read r1 1 of (extra, extraErr, r2) \<Rightarrow>
                  let l2 = l1\<lparr>lr_R := r2\<rparr> in
                  if length extra > 0
                  then (bs, Some (SizeLimitExceededError (lr_Limit l) (lr_read l1 + 1)), l2)
                  else if extraErr \<noteq> None \<and> extraErr \<noteq> Some EOF then (bs, extraErr, l2)
                  else (bs, err, l2))
             else (bs, err, l1))"

text \<open>What is left of a stream, for the termination of \<open>io.ReadAll\<close>.\<close>

definition stream_size :: "Stream \<Rightarrow> nat" where
  "stream_size r = length (concat (pending r)) + length (pending r)"

lemma stream_Read_size:
  "stream_Read r k = (bs, None, r1) \<Longrightarrow> 0 < k \<Longrightarrow> stream_size r1 < stream_size r"
  by (auto simp: stream_Read_def stream_size_def split: list.splits if_splits)

lemma stream_Read_size_le:
  "stream_Read r k = (bs, err, r1) \<Longrightarrow> stream_size r1 \<le> stream_size r"
  by (auto simp: stream_Read_def stream_size_def split: list.splits if_splits)

lemma Read_progress:
  assumes "LimitedReader_Read l k = (bs, None, l1)" "0 < k"
  shows "stream_size (lr_R l1) < stream_size (lr_R l)"
proof -
  from assms(1) have pos: "0 < lr_N l" by (auto simp: LimitedReader_Read_def split: if_splits)
  define k1 where "k1 = (if int k > lr_N l then nat (lr_N l) else k)"
  have k1: "0 < k1" using pos assms(2) by (simp add: k1_def)
  obtain bs0 err0 r1 where s: "stream_Read (lr_R l) k1 = (bs0, err0, r1)"
    by (cases "stream_Read (lr_R l) k1") auto
  obtain ex exErr r2 where e: "stream_Read r1 1 = (ex, exErr, r2)"
    by (cases "stream_Read r1 1") auto
  from assms(1) pos s e have "err0 = None" and r: "lr_R l1 = r1 \<or> lr_R l1 = r2"
    by (auto simp: LimitedReader_Read_def Let_def k1_def [symmetric] split: if_splits)
  with s k1 have "stream_size r1 < stream_size (lr_R l)" by (auto dest: stream_Read_size)
  moreover from e have "stream_size r2 \<le> stream_size r1" by (rule stream_Read_size_le)
  ultimately show ?thesis using r by auto
qed

text \<open>
  \<open>io.ReadAll\<close>: read into the free room of the buffer until a read returns an error;
  \<open>EOF\<close> is reported as success.  The buffer starts with room for 512 bytes; when it
  is full, \<open>append\<close> makes room for one more byte at least, and \<open>extra\<close> says how much
  more the runtime adds at a given length.  \<open>room\<close> is the free room less one, so a
  read is never offered an empty slice.
\<close>

function ReadAll_loop ::
  "(nat \<Rightarrow> nat) \<Rightarrow> LimitedReader \<Rightarrow> string \<Rightarrow> nat
     \<Rightarrow> (string \<times> read_error option) \<times> LimitedReader" where
  "ReadAll_loop extra l b room =
     (case LimitedReader_Read l (Suc room) of (bs, err, l1) \<Rightarrow>
        let b1 = b @ bs in
        case err of
          Some e \<Rightarrow> ((b1, if e = EOF then None else Some e), l1)
        | None \<Rightarrow>
            if length bs = Suc room then ReadAll_loop extra l1 b1 (extra (length b1))
            else ReadAll_loop extra l1 b1 (room - length bs))"
  by pat_completeness auto

termination
  by (relation "measure (\<lambda>(extra, l, b, room). stream_size (lr_R l))")
     (auto intro: Read_progress [OF sym])

declare ReadAll_loop.simps [simp del]

definition ReadAll :: "(nat \<Rightarrow> nat) \<Rightarrow> LimitedReader \<Rightarrow> (string \<times> read_error option) \<times> LimitedReader" where
  "ReadAll extra l = ReadAll_loop extra l [] 511"



text \<open>
  \<open>readHTTPResponse\<close> (http.go).  Of \<open>*http.Response\<close> the fields read are kept;
  \<open>latency\<close> is a \<open>time.Duration\<close> in nanoseconds and \<open>Milliseconds\<close> divides
  truncating towards zero.  The message of an error record is \<open>err.Error()\<close>; the
  record keeps the error itself.
\<close>

record http_Response =
  resp_StatusCode :: int
  resp_Header :: "(string \<times> string list) list"
  resp_Proto :: string
  resp_Body :: Stream

record HTTPError =
  err_Code :: string
  err_Cause :: read_error

record HTTPResponse =
  StatusCode :: int
  Headers :: "(string \<times> string list) list"
  Body :: string
  BodyTruncated :: bool
  LatencyMs :: int
  Proto :: string
  Error :: "HTTPError option"

definition Milliseconds :: "int \<Rightarrow> int" where
  "Milliseconds d = (if d < 0 then - ((- d) div 1000000) else d div 1000000)"

fun IsSizeLimitExceededError :: "read_error \<Rightarrow> bool" where
  "IsSizeLimitExceededError (SizeLimitExceededError limit n) = True"
| "IsSizeLimitExceededError e = False"

definition readHTTPResponse ::
  "(nat \<Rightarrow> nat) \<Rightarrow> http_Response \<Rightarrow> int \<Rightarrow> int \<Rightarrow> HTTPResponse" where
  "readHTTPResponse extra resp latency maxBodySize =
     (let limitedReader = NewLimitedReader (resp_Body resp) maxBodySize in
      case fst (ReadAll extra limitedReader) of
        (respBody, Some err) \<Rightarrow>
          if IsSizeLimitExceededError err then
            \<lparr>StatusCode = resp_StatusCode resp, Headers = resp_Header resp, Body = respBody,
             BodyTruncated = True, LatencyMs = Milliseconds latency, Proto = resp_Proto resp,
             Error = None\<rparr>
          else
            \<lparr>StatusCode = resp_StatusCode resp, Headers = resp_Header resp, Body = [],
             BodyTruncated = False, LatencyMs = Milliseconds latency, Proto = [],
             Error = Some \<lparr>err_Code = ''READ_BODY_FAILED'', err_Cause = err\<rparr>\<rparr>
      | (respBody, None) \<Rightarrow>
          \<lparr>StatusCode = resp_StatusCode resp, Headers = resp_Header resp, Body = respBody,
           BodyTruncated = False, LatencyMs = Milliseconds latency, Proto = resp_Proto resp,
           Error = None\<rparr>)"

section \<open>Plugin declarations (plugin/entities/plugin\_spec.go)\<close>

record PluginSpec =
  ps_Name :: string
  ps_Source :: string
  ps_Version :: string
  ps_Digest :: string
  ps_Verify :: bool

datatype lock_error =
  EmptyDeclaration
| DigestRequired string
| LoadFailed
| SaveFailed

text \<open>
  \<open>ParsePluginDeclaration\<close>, statement by statement: \<open>declaration\<close> is the local
  that the function shortens, \<open>spec\<close> the record it fills.
\<close>

definition ParsePluginDeclaration :: "string \<Rightarrow> lock_error + PluginSpec" where
  "ParsePluginDeclaration declaration0 =
     (if declaration0 = [] then Inl EmptyDeclaration
      else
        let spec0 = \<lparr>ps_Name = [], ps_Source = declaration0, ps_Version = [], ps_Digest = [],
                     ps_Verify = False\<rparr>;
            (spec1, declaration1) =
              (case Index declaration0 ''@sha256:'' of
                 Some idx \<Rightarrow>
                   (let dg = drop (idx + 1) declaration0;
                        d = take idx declaration0
                    in (spec0\<lparr>ps_Digest := dg, ps_Source := d @ ''@'' @ dg\<rparr>, d))
               | None \<Rightarrow> (spec0, declaration0));
            (spec2, declaration2) =
              (case LastIndex declaration1 CHR ''@'' of
                 Some idx \<Rightarrow>
                   (spec1\<lparr>ps_Version := drop (idx + 1) declaration1\<rparr>, take idx declaration1)
               | None \<Rightarrow> (spec1, declaration1))
        in if Contains declaration2 ''/'' then
             (let parts = Split declaration2 CHR ''/'';
                  name = parts ! (length parts - 1)
              in case LastIndex name CHR '':'' of
                   Some idx \<Rightarrow>
                     Inr (spec2\<lparr>ps_Version := drop (idx + 1) name, ps_Name := take idx name\<rparr>)
                 | None \<Rightarrow> Inr (spec2\<lparr>ps_Name := name\<rparr>))
           else
             (let spec3 = spec2\<lparr>ps_Name := declaration2\<rparr>
              in if ps_Version spec3 \<noteq> [] then Inr (spec3\<lparr>ps_Source := declaration2\<rparr>)
                 else Inr spec3))"

section \<open>The lockfile (plugin/entities/lockfile.go)\<close>

text \<open>
  A \<open>time.Time\<close> is an instant of an abstract clock, \<open>0\<close> the zero time.  A Go map is
  a partial function; a nil map and an empty map are both the empty function (the code
  reads them alike and allocates before it writes).
\<close>

type_synonym time = nat

record PluginLock =
  pl_Fetched :: time
  pl_Modified :: time
  pl_Requested :: string
  pl_Resolved :: string
  pl_Source :: string
  pl_Digest :: string

record ProfileLock =
  pr_Fetched :: time
  pr_Modified :: time
  pr_Requested :: string
  pr_Resolved :: string
  pr_Source :: string
  pr_Digest :: string

record Lockfile =
  Generated :: time
  Plugins :: "string \<rightharpoonup> PluginLock"
  Profiles :: "string \<rightharpoonup> ProfileLock"
  Version :: int

text \<open>\<open>NewLockfile\<close>, given the instant \<open>time.Now()\<close> returns.\<close>

definition NewLockfile :: "time \<Rightarrow> Lockfile" where
  "NewLockfile now = \<lparr>Generated = now, Plugins = Map.empty, Profiles = Map.empty, Version = 1\<rparr>"

definition AddPlugin :: "Lockfile \<Rightarrow> string \<Rightarrow> PluginLock \<Rightarrow> lock_error + Lockfile" where
  "AddPlugin l name lock =
     (if pl_Digest lock = [] then Inl (DigestRequired name)
      else Inr (l\<lparr>Plugins := (Plugins l)(name \<mapsto> lock)\<rparr>))"

definition GetPlugin :: "Lockfile \<Rightarrow> string \<Rightarrow> PluginLock option" where
  "GetPlugin l name = Plugins l name"

section \<open>The lockfile service\<close>

text \<open>
  The repository port is the environment: \<open>files\<close> is what is stored under each path,
  \<open>Load\<close> returns it (nil for a missing file), \<open>Save\<close> replaces it; the two flags
  tell whether the calls fail, and \<open>saves\<close> counts the calls of \<open>Save\<close>.
\<close>

record LockfileRepo =
  files :: "string \<rightharpoonup> Lockfile"
  load_fails :: bool
  save_fails :: bool
  saves :: nat

definition repo_Load :: "LockfileRepo \<Rightarrow> string \<Rightarrow> lock_error + Lockfile option" where
  "repo_Load repo path = (if load_fails repo then Inl LoadFailed else Inr (files repo path))"

definition repo_Save :: "LockfileRepo \<Rightarrow> Lockfile \<Rightarrow> string \<Rightarrow> lock_error option \<times> LockfileRepo" where
  "repo_Save repo lock path =
     (if save_fails repo then (Some SaveFailed, repo\<lparr>saves := Suc (saves repo)\<rparr>)
      else (None, repo\<lparr>files := (files repo)(path \<mapsto> lock), saves := Suc (saves repo)\<rparr>))"

text \<open>
  The loop over the declarations, with the variables \<open>lock\<close> and \<open>updated\<close>; \<open>clock\<close>
  is the instant the next \<open>time.Now()\<close> returns, and each call advances it.
\<close>

fun resolve_declarations ::
  "Lockfile \<Rightarrow> bool \<Rightarrow> time \<Rightarrow> string list \<Rightarrow> lock_error + (Lockfile \<times> bool \<times> time)" where
  "resolve_declarations lock updated clock [] = Inr (lock, updated, clock)"
| "resolve_declarations lock updated clock (pluginDecl # rest) =
     (case ParsePluginDeclaration pluginDecl of
        Inl err \<Rightarrow> Inl err
      | Inr spec \<Rightarrow>
          let name = ps_Name spec;
              constraint = (if ps_Version spec = [] then ''latest'' else ps_Version spec);
              locked = GetPlugin lock name
          in if locked \<noteq> None \<and> pl_Requested (the locked) = constraint
             then resolve_declarations lock updated clock rest
             else
               let resolvedVersion = constraint;
                   newLock = \<lparr>pl_Fetched = clock, pl_Modified = 0, pl_Requested = constraint,
                              pl_Resolved = resolvedVersion, pl_Source = ps_Source spec,
                              pl_Digest = ''sha256:placeholder''\<rparr>
               in case AddPlugin lock name newLock of
                    Inl err \<Rightarrow> Inl err
                  | Inr lock1 \<Rightarrow> resolve_declarations lock1 True (Suc clock) rest)"

declare resolve_declarations.simps(2) [simp del]

definition ResolvePlugins ::
  "LockfileRepo \<Rightarrow> time \<Rightarrow> string list \<Rightarrow> string
     \<Rightarrow> (lock_error + Lockfile) \<times> LockfileRepo \<times> time" where
  "ResolvePlugins repo clock pluginDeclarations lockfilePath =
     (case repo_Load repo lockfilePath of
        Inl err \<Rightarrow> (Inl err, repo, clock)
      | Inr loaded \<Rightarrow>
          let (lock, clock1) =
                (case loaded of
                   None \<Rightarrow> (NewLockfile clock, Suc clock)
                 | Some l \<Rightarrow> (l, clock))
          in case resolve_declarations lock False clock1 pluginDeclarations of
               Inl err \<Rightarrow> (Inl err, repo, clock1)
             | Inr (lock1, updated, clock2) \<Rightarrow>
                 if updated then
                   (let lock2 = lock1\<lparr>Generated := clock2\<rparr> in
                    case repo_Save repo lock2 lockfilePath of
                      (Some err, repo1) \<Rightarrow> (Inl err, repo1, Suc clock2)
                    | (None, repo1) \<Rightarrow> (Inr lock2, repo1, Suc clock2))
                 else (Inr lock1, repo, clock2))"

text \<open>
  The name and the effective constraint a declaration asks for, and the declaration
  lists in which declarations of one name ask for one constraint.
\<close>

definition decl_request :: "string \<Rightarrow> (string \<times> string) option" where
  "decl_request d =
     (case ParsePluginDeclaration d of
        Inl err \<Rightarrow> None
      | Inr spec \<Rightarrow>
          Some (ps_Name spec, if ps_Version spec = [] then ''latest'' else ps_Version spec))"

definition agreeing :: "string list \<Rightarrow> bool" where
  "agreeing decls =
     (\<forall>d1 \<in> set decls. \<forall>d2 \<in> set decls.
        \<forall>n c1 c2. decl_request d1 = Some (n, c1) \<and> decl_request d2 = Some (n, c2) \<longrightarrow> c1 = c2)"

text \<open>A declaration is satisfied by the entries when its name is locked at its constraint.\<close>

definition satisfied :: "(string \<rightharpoonup> PluginLock) \<Rightarrow> string \<Rightarrow> bool" where
  "satisfied ps d =
     (case decl_request d of
        None \<Rightarrow> False
      | Some (n, c) \<Rightarrow> (case ps n of None \<Rightarrow> False | Some e \<Rightarrow> pl_Requested e = c))"

text \<open>
  The entry the loop writes for a declaration at an instant (for a declaration that
  does not parse the loop writes none, and this is the zero entry).
\<close>

definition entry_for :: "string \<Rightarrow> time \<Rightarrow> PluginLock" where
  "entry_for d clock =
     (case ParsePluginDeclaration d of
        Inr spec \<Rightarrow>
          \<lparr>pl_Fetched = clock, pl_Modified = 0,
           pl_Requested = (if ps_Version spec = [] then ''latest'' else ps_Version spec),
           pl_Resolved = (if ps_Version spec = [] then ''latest'' else ps_Version spec),
           pl_Source = ps_Source spec, pl_Digest = ''sha256:placeholder''\<rparr>
      | Inl err \<Rightarrow>
          \<lparr>pl_Fetched = 0, pl_Modified = 0, pl_Requested = [], pl_Resolved = [],
           pl_Source = [], pl_Digest = []\<rparr>)"

section \<open>The gatekeeper (capability/gatekeeper/gatekeeper.go)\<close>

text \<open>
  The set algebra of \<open>hostfunc.GrantSet\<close> (\<open>IsEmpty\<close>, \<open>Clone\<close>, \<open>Difference\<close>,
  \<open>Deduplicate\<close>, \<open>Merge\<close>) belongs to the ABI package and is a parameter of the
  model: the gatekeeper is verified for every implementation of it.  The methods that
  mutate their receiver return the new value.
\<close>

record hostfunc_ops =
  op_IsEmpty :: "GrantSet \<Rightarrow> bool"
  op_Clone :: "GrantSet \<Rightarrow> GrantSet"
  op_Difference :: "GrantSet \<Rightarrow> GrantSet \<Rightarrow> GrantSet"
  op_Deduplicate :: "GrantSet \<Rightarrow> GrantSet"
  op_Merge :: "GrantSet \<Rightarrow> GrantSet \<Rightarrow> GrantSet"

text \<open>\<open>type SecurityLevel string\<close> and its three constants.\<close>

type_synonym SecurityLevel = string

definition SecurityStrict :: SecurityLevel where "SecurityStrict = ''strict''"
definition SecurityStandard :: SecurityLevel where "SecurityStandard = ''standard''"
definition SecurityPermissive :: SecurityLevel where "SecurityPermissive = ''permissive''"

text \<open>\<open>capability.Request\<close>; its \<open>Rule\<close> is a network rule, a filesystem rule or a string.\<close>

datatype rule_value =
  NetworkRuleValue NetworkRule
| FileSystemRuleValue FileSystemRule
| StringValue string

record Request =
  req_Rule :: rule_value
  req_Kind :: string
  req_Description :: string
  req_IsBroad :: bool

text \<open>
  The errors of the gatekeeper: \<open>BroadDenied d\<close> is the error
  \<open>broad capability denied by strict security policy: d\<close>, \<open>DeniedByUser d\<close> the error
  \<open>capability denied by user: d\<close>, \<open>PrompterFailed\<close> an error the prompter returned,
  and \<open>NonInteractive missing\<close> what \<open>FormatNonInteractiveError(missing)\<close> builds.
\<close>

datatype gk_error =
  BroadDenied string
| DeniedByUser string
| PrompterFailed string
| NonInteractive GrantSet

text \<open>
  The prompter and the grant store are the environment.  Every call the gatekeeper
  makes to them is recorded, in order.  The prompter's answer to a request may depend
  on the requests it was asked before.  Logging is not modelled.
\<close>

datatype gk_event =
  StoreLoad
| StoreSave GrantSet
| StoreConfigPath
| AskedInteractive
| FormattedNonInteractive GrantSet
| Prompted Request

record Prompter =
  IsInteractive :: bool
  PromptForCapability :: "Request list \<Rightarrow> Request \<Rightarrow> bool \<times> bool \<times> string option"

record GrantStore =
  gs_stored :: GrantSet
  gs_load_fails :: bool
  gs_save_fails :: bool

record Gatekeeper =
  store :: GrantStore
  prompter :: Prompter
  securityLevel :: SecurityLevel

text \<open>The requests the prompter was asked so far.\<close>

fun prompted :: "gk_event list \<Rightarrow> Request list" where
  "prompted [] = []"
| "prompted (Prompted r # es) = r # prompted es"
| "prompted (e # es) = prompted es"

text \<open>
  \<open>evaluateWithSecurityLevel\<close>: the answer \<open>(granted, always, err)\<close> and the events
  so far.  \<open>riskDesc\<close> only feeds the log.
\<close>

definition evaluateWithSecurityLevel ::
  "Gatekeeper \<Rightarrow> Request \<Rightarrow> RiskFactor list \<Rightarrow> gk_event list
     \<Rightarrow> (bool \<times> bool \<times> gk_error option) \<times> gk_event list" where
  "evaluateWithSecurityLevel g req riskFactors trace =
     (let riskDesc = (if length riskFactors > 0 then Description (riskFactors ! 0) else [])
      in if req_IsBroad req \<and> securityLevel g = SecurityStrict
         then ((False, False, Some (BroadDenied (req_Description req))), trace)
         else if req_IsBroad req \<and> securityLevel g = SecurityPermissive
         then ((True, False, None), trace)
         else if securityLevel g = SecurityPermissive
         then ((True, False, None), trace)
         else (case PromptForCapability (prompter g) (prompted trace) req of
                 (granted, always, err) \<Rightarrow>
                   ((granted, always, map_option PrompterFailed err),
                    trace @ [Prompted req])))"

text \<open>
  The body the four loops share: evaluate the request built from one rule; on an error
  return it; when granted merge the one-rule grant set \<open>toMerge\<close> into \<open>newGrants\<close> and
  note an \<open>always\<close>; otherwise return the denial.  \<open>gs\<close> is the one-rule grant set
  handed to \<open>AnalyzeRisk\<close>.
\<close>

definition prompt_rule ::
  "Gatekeeper \<Rightarrow> hostfunc_ops \<Rightarrow> Request \<Rightarrow> GrantSet
     \<Rightarrow> GrantSet \<times> bool \<times> gk_event list
     \<Rightarrow> gk_error option \<times> GrantSet \<times> bool \<times> gk_event list" where
  "prompt_rule g ops req gs st =
     (case st of (newGrants, shouldSave, trace) \<Rightarrow>
        (case evaluateWithSecurityLevel g req (RiskFactors (AnalyzeRisk (Some gs))) trace of
           ((granted, always, err), trace1) \<Rightarrow>
             if err \<noteq> None then (err, newGrants, shouldSave, trace1)
             else if granted then
               (let toMerge = gs
                in (None, op_Merge ops newGrants toMerge,
                    (if always then True else shouldSave), trace1))
             else (Some (DeniedByUser (req_Description req)), newGrants, shouldSave, trace1)))"

text \<open>The requests of the four loops, each with its one-rule grant set.\<close>

definition network_request :: "NetworkRule \<Rightarrow> Request \<times> GrantSet" where
  "network_request rule =
     (let isBroad = (length (Hosts rule) = 1 \<and> Hosts rule ! 0 = ''*'' \<and>
                     length (Ports rule) = 1 \<and> Ports rule ! 0 = ''*'');
          gs = EmptyGrantSet\<lparr>Network := Some [rule]\<rparr>
      in (\<lparr>req_Rule = NetworkRuleValue rule, req_Kind = ''network'',
           req_Description =
             ''network '' @ fmt_strings (Hosts rule) @ '':'' @ fmt_strings (Ports rule),
           req_IsBroad = isBroad\<rparr>, gs))"

definition fs_read_request :: "string \<Rightarrow> Request \<times> GrantSet" where
  "fs_read_request path =
     (let isBroad = (path = ''/**'' \<or> path = ''**'');
          gs = EmptyGrantSet\<lparr>FS := Some [\<lparr>Read = [path], Write = []\<rparr>]\<rparr>
      in (\<lparr>req_Rule = FileSystemRuleValue \<lparr>Read = [path], Write = []\<rparr>, req_Kind = ''fs'',
           req_Description = ''fs read:'' @ path, req_IsBroad = isBroad\<rparr>, gs))"

definition fs_write_request :: "string \<Rightarrow> Request \<times> GrantSet" where
  "fs_write_request path =
     (let isBroad = (path = ''/**'' \<or> path = ''**'');
          gs = EmptyGrantSet\<lparr>FS := Some [\<lparr>Read = [], Write = [path]\<rparr>]\<rparr>
      in (\<lparr>req_Rule = FileSystemRuleValue \<lparr>Read = [], Write = [path]\<rparr>, req_Kind = ''fs'',
           req_Description = ''fs write:'' @ path, req_IsBroad = isBroad\<rparr>, gs))"

definition env_request :: "string \<Rightarrow> Request \<times> GrantSet" where
  "env_request v =
     (let isBroad = (v = ''*'');
          gs = EmptyGrantSet\<lparr>Env := Some [v]\<rparr>
      in (\<lparr>req_Rule = StringValue v, req_Kind = ''env'',
           req_Description = ''env '' @ v, req_IsBroad = isBroad\<rparr>, gs))"

definition exec_request :: "string \<Rightarrow> Request \<times> GrantSet" where
  "exec_request cmd =
     (let isBroad = (cmd = ''**'' \<or> cmd = ''*'');
          gs = EmptyGrantSet\<lparr>Exec := Some [cmd]\<rparr>
      in (\<lparr>req_Rule = StringValue cmd, req_Kind = ''exec'',
           req_Description = ''exec '' @ cmd, req_IsBroad = isBroad\<rparr>, gs))"

text \<open>A \<open>for ... range\<close> loop over requests, returning at the first error.\<close>

fun prompt_each ::
  "Gatekeeper \<Rightarrow> hostfunc_ops \<Rightarrow> (Request \<times> GrantSet) list
     \<Rightarrow> GrantSet \<times> bool \<times> gk_event list
     \<Rightarrow> gk_error option \<times> GrantSet \<times> bool \<times> gk_event list" where
  "prompt_each g ops [] st = (None, st)"
| "prompt_each g ops ((req, gs) # rest) st =
     (case prompt_rule g ops req gs st of
        (Some err, st1) \<Rightarrow> (Some err, st1)
      | (None, st1) \<Rightarrow> prompt_each g ops rest st1)"

definition promptForNetwork ::
  "Gatekeeper \<Rightarrow> hostfunc_ops \<Rightarrow> GrantSet \<Rightarrow> GrantSet \<times> bool \<times> gk_event list
     \<Rightarrow> gk_error option \<times> GrantSet \<times> bool \<times> gk_event list" where
  "promptForNetwork g ops missing st =
     (case Network missing of
        None \<Rightarrow> (None, st)
      | Some rules \<Rightarrow> prompt_each g ops (map network_request rules) st)"

text \<open>For each filesystem rule: its read paths, then its write paths.\<close>

definition fs_rule_requests :: "FileSystemRule \<Rightarrow> (Request \<times> GrantSet) list" where
  "fs_rule_requests rule = map fs_read_request (Read rule) @ map fs_write_request (Write rule)"

definition promptForFS ::
  "Gatekeeper \<Rightarrow> hostfunc_ops \<Rightarrow> GrantSet \<Rightarrow> GrantSet \<times> bool \<times> gk_event list
     \<Rightarrow> gk_error option \<times> GrantSet \<times> bool \<times> gk_event list" where
  "promptForFS g ops missing st =
     (case FS missing of
        None \<Rightarrow> (None, st)
      | Some rules \<Rightarrow> prompt_each g ops (concat (map fs_rule_requests rules)) st)"

definition promptForEnv ::
  "Gatekeeper \<Rightarrow> hostfunc_ops \<Rightarrow> GrantSet \<Rightarrow> GrantSet \<times> bool \<times> gk_event list
     \<Rightarrow> gk_error option \<times> GrantSet \<times> bool \<times> gk_event list" where
  "promptForEnv g ops missing st =
     (case Env missing of
        None \<Rightarrow> (None, st)
      | Some vars \<Rightarrow> prompt_each g ops (map env_request vars) st)"

definition promptForExec ::
  "Gatekeeper \<Rightarrow> hostfunc_ops \<Rightarrow> GrantSet \<Rightarrow> GrantSet \<times> bool \<times> gk_event list
     \<Rightarrow> gk_error option \<times> GrantSet \<times> bool \<times> gk_event list" where
  "promptForExec g ops missing st =
     (case Exec missing of
        None \<Rightarrow> (None, st)
      | Some cmds \<Rightarrow> prompt_each g ops (map exec_request cmds) st)"

definition promptForCapabilities ::
  "Gatekeeper \<Rightarrow> hostfunc_ops \<Rightarrow> GrantSet \<Rightarrow> GrantSet \<times> bool \<times> gk_event list
     \<Rightarrow> gk_error option \<times> GrantSet \<times> bool \<times> gk_event list" where
  "promptForCapabilities g ops missing st =
     (case promptForNetwork g ops missing st of
        (Some err, st1) \<Rightarrow> (Some err, st1)
      | (None, st1) \<Rightarrow>
          (case promptForFS g ops missing st1 of
             (Some err, st2) \<Rightarrow> (Some err, st2)
           | (None, st2) \<Rightarrow>
               (case promptForEnv g ops missing st2 of
                  (Some err, st3) \<Rightarrow> (Some err, st3)
                | (None, st3) \<Rightarrow> promptForExec g ops missing st3)))"

text \<open>
  \<open>GrantCapabilities\<close>; \<open>required\<close> is a pointer that may be nil.  The parameter
  \<open>capabilityInfo\<close> is passed along and never read; it is left out.
\<close>

definition GrantCapabilities ::
  "Gatekeeper \<Rightarrow> hostfunc_ops \<Rightarrow> GrantSet option \<Rightarrow> bool
     \<Rightarrow> (gk_error + GrantSet) \<times> gk_event list" where
  "GrantCapabilities g ops required trustAll =
     (case required of
        None \<Rightarrow> (Inr EmptyGrantSet, [])
      | Some req \<Rightarrow>
          if op_IsEmpty ops req then (Inr EmptyGrantSet, [])
          else if trustAll then (Inr (op_Clone ops req), [])
          else
            let existingGrants =
                  (if gs_load_fails (store g) then EmptyGrantSet else gs_stored (store g));
                missing = op_Difference ops req existingGrants
            in if op_IsEmpty ops missing then (Inr existingGrants, [StoreLoad])
               else
                 let missing1 = op_Deduplicate ops missing in
                 if \<not> IsInteractive (prompter g)
                 then (Inl (NonInteractive missing1),
                       [StoreLoad, AskedInteractive, FormattedNonInteractive missing1])
                 else
                   (case promptForCapabilities g ops missing1
                           (op_Clone ops existingGrants, False, [StoreLoad, AskedInteractive]) of
                      (Some err, newGrants, shouldSave, trace) \<Rightarrow> (Inl err, trace)
                    | (None, newGrants, shouldSave, trace) \<Rightarrow>
                        if shouldSave then
                          (Inr newGrants,
                           trace @ [StoreSave newGrants] @
                             (if gs_save_fails (store g) then [] else [StoreConfigPath]))
                        else (Inr newGrants, trace)))"

text \<open>
  The requests \<open>promptForCapabilities\<close> goes through for a missing set, in order:
  network, filesystem, env, exec.
\<close>

definition capability_requests :: "GrantSet \<Rightarrow> (Request \<times> GrantSet) list" where
  "capability_requests missing =
     (case Network missing of None \<Rightarrow> [] | Some rules \<Rightarrow> map network_request rules) @
     (case FS missing of None \<Rightarrow> [] | Some rules \<Rightarrow> concat (map fs_rule_requests rules)) @
     (case Env missing of None \<Rightarrow> [] | Some vars \<Rightarrow> map env_request vars) @
     (case Exec missing of None \<Rightarrow> [] | Some cmds \<Rightarrow> map exec_request cmds)"

text \<open>
  Broad requests as the loops compute them, read off the request: a network rule whose
  hosts are exactly \<open>["*"]\<close> and whose ports are exactly \<open>["*"]\<close>; a filesystem path
  \<open>/**\<close> or \<open>**\<close>; an env variable \<open>*\<close>; an exec command \<open>*\<close> or \<open>**\<close>.
\<close>

definition broad_request :: "Request \<Rightarrow> bool" where
  "broad_request r =
     (case req_Rule r of
        NetworkRuleValue rule \<Rightarrow> Hosts rule = [''*''] \<and> Ports rule = [''*'']
      | FileSystemRuleValue rule \<Rightarrow>
          Read rule @ Write rule = [''/**''] \<or> Read rule @ Write rule = [''**'']
      | StringValue v \<Rightarrow>
          if req_Kind r = ''env'' then v = ''*'' else (v = ''**'' \<or> v = ''*''))"

text \<open>
  A set algebra for the examples, which agrees with any sensible one when nothing is
  stored and the sets hold one rule: a set is empty when it is \<open>GrantSet{}\<close>, the
  difference with nothing is the set itself, merging into nothing gives the set merged.
\<close>

definition example_ops :: hostfunc_ops where
  "example_ops =
     \<lparr>op_IsEmpty = (\<lambda>g. g = EmptyGrantSet), op_Clone = (\<lambda>g. g),
      op_Difference = (\<lambda>a b. a), op_Deduplicate = (\<lambda>g. g), op_Merge = (\<lambda>a b. b)\<rparr>"

text \<open>
  A gatekeeper for the examples: an empty store, a prompter that is interactive or not
  and answers every request with ``grant once'', and the given security level.
\<close>

definition example_gatekeeper :: "SecurityLevel \<Rightarrow> bool \<Rightarrow> Gatekeeper" where
  "example_gatekeeper level interactive =
     \<lparr>store = \<lparr>gs_stored = EmptyGrantSet, gs_load_fails = False, gs_save_fails = False\<rparr>,
      prompter = \<lparr>IsInteractive = interactive,
                  PromptForCapability = (\<lambda>asked req. (True, False, None))\<rparr>,
      securityLevel = level\<rparr>"

section \<open>Capability enforcement for host functions\<close>

text \<open>
  The request types of the ABI package, with the fields the middleware reads.
\<close>

record NetworkRequest =
  nr_Host :: string
  nr_Port :: int

record DNSRequest =
  dns_Hostname :: string

record TCPRequest =
  tcp_Host :: string
  tcp_Port :: string

record SMTPRequest =
  smtp_Host :: string
  smtp_Port :: string

record HTTPRequest =
  http_URL :: string

record ExecRequest =
  exec_Command :: string
  exec_Args :: "string list"

text \<open>What the middleware reads of a parsed \<open>*url.URL\<close>.\<close>

record ParsedURL =
  url_Scheme :: string
  url_Hostname :: string
  url_Port :: string

text \<open>
  Library and helper functions that are not part of the code under verification are
  parameters: \<open>json.Unmarshal\<close> into each request type (\<open>None\<close> when it returns an
  error), \<open>url.Parse\<close> (\<open>Inl\<close> the error text), \<open>strconv.Atoi\<close> (the value it
  returns, the middleware dropping its error), \<open>IsDangerousExecution\<close> and
  \<open>GetExecutionTypeDescription\<close>.
\<close>

record host_env =
  unmarshal_DNS :: "string \<Rightarrow> DNSRequest option"
  unmarshal_TCP :: "string \<Rightarrow> TCPRequest option"
  unmarshal_SMTP :: "string \<Rightarrow> SMTPRequest option"
  unmarshal_HTTP :: "string \<Rightarrow> HTTPRequest option"
  unmarshal_Exec :: "string \<Rightarrow> ExecRequest option"
  url_Parse :: "string \<Rightarrow> string + ParsedURL"
  strconv_Atoi :: "string \<Rightarrow> int"
  IsDangerousExecution :: "string \<Rightarrow> string list \<Rightarrow> bool"
  GetExecutionTypeDescription :: "string \<Rightarrow> string list \<Rightarrow> string"

text \<open>
  The policy engine is an interface (policy/interface.go); the decisions of the
  methods the checker calls are parameters.
\<close>

record Policy =
  pol_CheckNetwork :: "NetworkRequest \<Rightarrow> GrantSet \<Rightarrow> bool"
  pol_EvaluateNetwork :: "NetworkRequest \<Rightarrow> GrantSet \<Rightarrow> bool"
  pol_CheckExec :: "string \<Rightarrow> GrantSet \<Rightarrow> bool"

text \<open>
  \<open>CapabilityChecker\<close>: \<open>grantedCapabilities\<close> maps a plugin name to its grant set
  (\<open>None\<close> for a missing key and for a nil pointer, which the code treats alike);
  \<open>has_denialHandler\<close> tells whether a denial handler is installed.
\<close>

record CapabilityChecker =
  cc_policy :: Policy
  grantedCapabilities :: "string \<rightharpoonup> GrantSet"
  has_denialHandler :: bool

text \<open>
  The context.  \<open>ctx_hostFunction\<close> is \<open>Some name\<close> when the context is a
  \<open>HostContext\<close>, \<open>name\<close> being its \<open>FunctionName()\<close>, and \<open>None\<close> for any other
  context; \<open>ctx_pluginName\<close> is the plugin name if the context carries one, and
  \<open>ctx_ssrf_allow_private\<close> the value stored under \<open>ssrf_allow_private\<close>.
\<close>

record Ctx =
  ctx_hostFunction :: "string option"
  ctx_pluginName :: "string option"
  ctx_ssrf_allow_private :: "bool option"

text \<open>
  \<open>context.WithValue(ctx, "ssrf_allow_private", v)\<close> wraps \<open>ctx\<close> in a value context
  of package \<open>context\<close>.  The wrapper has the methods of \<open>context.Context\<close> only, so
  it is no \<open>HostContext\<close> whatever \<open>ctx\<close> was; the values of \<open>ctx\<close> stay visible
  through it.
\<close>

definition WithValue_ssrf :: "Ctx \<Rightarrow> bool \<Rightarrow> Ctx" where
  "WithValue_ssrf ctx v = ctx\<lparr>ctx_hostFunction := None, ctx_ssrf_allow_private := Some v\<rparr>"

text \<open>
  The calls made while a host-function call is dispatched, in order: the checker's
  methods, the methods of the policy they call, the denial handler, and the inner
  handler \<open>next\<close>.
\<close>

datatype mw_event =
  AllowsPrivateNetworkCalled string
| CheckNetworkCalled string NetworkRequest
| CheckNetworkConnectionCalled string string int
| CheckExecCalled string string
| PolicyCheckNetwork NetworkRequest
| PolicyEvaluateNetwork NetworkRequest
| PolicyCheckExec string
| DenialHandlerCalled string string string string
| NextCalled Ctx string

text \<open>Decimal digits of an integer, for \<open>%d\<close>.\<close>

fun nat_digits :: "nat \<Rightarrow> string" where
  "nat_digits n =
     (if n < 10 then [char_of (48 + n)]
      else nat_digits (n div 10) @ [char_of (48 + n mod 10)])"

declare nat_digits.simps [simp del]

definition fmt_int :: "int \<Rightarrow> string" where
  "fmt_int i = (if i < 0 then CHR ''-'' # nat_digits (nat (- i)) else nat_digits (nat i))"

definition handleDeny ::
  "CapabilityChecker \<Rightarrow> string \<Rightarrow> string \<Rightarrow> string \<Rightarrow> string
     \<Rightarrow> string option \<times> mw_event list" where
  "handleDeny c pluginName kind pattern message =
     (let fullMsg = message @ '': '' @ pattern
      in (Some fullMsg,
          if has_denialHandler c then [DenialHandlerCalled pluginName kind pattern fullMsg]
          else []))"

definition CheckNetwork ::
  "CapabilityChecker \<Rightarrow> string \<Rightarrow> NetworkRequest \<Rightarrow> string option \<times> mw_event list" where
  "CheckNetwork c pluginName req =
     (let pattern = nr_Host req @ '':'' @ fmt_int (nr_Port req);
          (err, evs) =
            (case grantedCapabilities c pluginName of
               None \<Rightarrow> handleDeny c pluginName ''network'' pattern ''no capabilities granted''
             | Some grants \<Rightarrow>
                 if pol_CheckNetwork (cc_policy c) req grants then (None, [PolicyCheckNetwork req])
                 else
                   (case handleDeny c pluginName ''network'' pattern
                           ''network capability denied'' of
                      (e, devs) \<Rightarrow> (e, PolicyCheckNetwork req # devs)))
      in (err, CheckNetworkCalled pluginName req # evs))"

text \<open>
  \<open>CheckNetworkConnection\<close> decides by the silent \<open>EvaluateNetwork\<close>; on a denial
  it calls the loud \<open>CheckNetwork\<close> of the policy as well, for the policy's own
  report, and drops its result.
\<close>

definition CheckNetworkConnection ::
  "CapabilityChecker \<Rightarrow> string \<Rightarrow> string \<Rightarrow> int \<Rightarrow> string option \<times> mw_event list" where
  "CheckNetworkConnection c pluginName host port =
     (let pattern = host @ '':'' @ fmt_int port;
          (err, evs) =
            (case grantedCapabilities c pluginName of
               None \<Rightarrow> handleDeny c pluginName ''network'' pattern ''no capabilities granted''
             | Some grants \<Rightarrow>
                 let req = \<lparr>nr_Host = host, nr_Port = port\<rparr> in
                 if pol_EvaluateNetwork (cc_policy c) req grants
                 then (None, [PolicyEvaluateNetwork req])
                 else
                   (case handleDeny c pluginName ''network'' pattern
                           ''network capability denied'' of
                      (e, devs) \<Rightarrow>
                        (e, PolicyEvaluateNetwork req # PolicyCheckNetwork req # devs)))
      in (err, CheckNetworkConnectionCalled pluginName host port # evs))"

definition CheckExec ::
  "CapabilityChecker \<Rightarrow> string \<Rightarrow> string \<Rightarrow> string option \<times> mw_event list" where
  "CheckExec c pluginName command =
     (let (err, evs) =
            (case grantedCapabilities c pluginName of
               None \<Rightarrow> handleDeny c pluginName ''exec'' command ''no capabilities granted''
             | Some grants \<Rightarrow>
                 if pol_CheckExec (cc_policy c) command grants then (None, [PolicyCheckExec command])
                 else
                   (case handleDeny c pluginName ''exec'' command ''exec capability denied'' of
                      (e, devs) \<Rightarrow> (e, PolicyCheckExec command # devs)))
      in (err, CheckExecCalled pluginName command # evs))"

text \<open>
  \<open>AllowsPrivateNetwork\<close>: \<open>false\<close> for a plugin without grants; otherwise the
  policy's decision on a request for \<open>127.0.0.1:0\<close>.
\<close>

definition private_probe :: NetworkRequest where
  "private_probe = \<lparr>nr_Host = ''127.0.0.1'', nr_Port = 0\<rparr>"

definition AllowsPrivateNetwork :: "CapabilityChecker \<Rightarrow> string \<Rightarrow> bool \<times> mw_event list" where
  "AllowsPrivateNetwork c pluginName =
     (case grantedCapabilities c pluginName of
        None \<Rightarrow> (False, [])
      | Some grants \<Rightarrow>
          (pol_EvaluateNetwork (cc_policy c) private_probe grants,
           [PolicyEvaluateNetwork private_probe]))"

definition checkHTTPCapability ::
  "host_env \<Rightarrow> CapabilityChecker \<Rightarrow> string \<Rightarrow> string \<Rightarrow> string option \<times> mw_event list" where
  "checkHTTPCapability env checker pluginName rawURL =
     (case url_Parse env rawURL of
        Inl err \<Rightarrow> (Some (''invalid URL: '' @ err), [])
      | Inr parsedURL \<Rightarrow>
          let portStr =
                (if url_Port parsedURL = [] then
                   (if url_Scheme parsedURL = ''https'' then ''443'' else ''80'')
                 else url_Port parsedURL);
              port = strconv_Atoi env portStr
          in CheckNetworkConnection checker pluginName (url_Hostname parsedURL) port)"

text \<open>
  The result of the wrapped handler: \<open>Inl msg\<close> is the payload
  \<open>NewValidationError(msg).ToJSON()\<close> returned without calling \<open>next\<close>; \<open>Inr r\<close> is
  what \<open>next\<close> returned.
\<close>

definition finish ::
  "(Ctx \<Rightarrow> string \<Rightarrow> 'r) \<Rightarrow> Ctx \<Rightarrow> string \<Rightarrow> mw_event list
     \<Rightarrow> (string + 'r) \<times> mw_event list" where
  "finish next ctx payload trace = (Inr (next ctx payload), trace @ [NextCalled ctx payload])"

text \<open>
  The function name the middleware reads: that of a \<open>HostContext\<close>, else the empty
  string.
\<close>

definition FunctionName :: "Ctx \<Rightarrow> string" where
  "FunctionName ctx = (case ctx_hostFunction ctx of Some n \<Rightarrow> n | None \<Rightarrow> [])"

definition CapabilityMiddleware ::
  "host_env \<Rightarrow> CapabilityChecker \<Rightarrow> (Ctx \<Rightarrow> string \<Rightarrow> 'r) \<Rightarrow> Ctx \<Rightarrow> string
     \<Rightarrow> (string + 'r) \<times> mw_event list" where
  "CapabilityMiddleware env checker next ctx0 payload =
     (let funcName = FunctionName ctx0 in
      case ctx_pluginName ctx0 of
        None \<Rightarrow> finish next ctx0 payload []
      | Some pluginName \<Rightarrow>
          let (allowPrivate, probed) = AllowsPrivateNetwork checker pluginName;
              ctx = WithValue_ssrf ctx0 allowPrivate;
              trace = AllowsPrivateNetworkCalled pluginName # probed
          in
          if funcName = ''dns_lookup'' then
            (case unmarshal_DNS env payload of
               None \<Rightarrow> finish next ctx payload trace
             | Some req \<Rightarrow>
                 (case CheckNetwork checker pluginName
                         \<lparr>nr_Host = dns_Hostname req, nr_Port = 53\<rparr> of
                    (Some err, evs) \<Rightarrow> (Inl err, trace @ evs)
                  | (None, evs) \<Rightarrow> finish next ctx payload (trace @ evs)))
          else if funcName = ''tcp_connect'' then
            (case unmarshal_TCP env payload of
               None \<Rightarrow> finish next ctx payload trace
             | Some req \<Rightarrow>
                 (let port = strconv_Atoi env (tcp_Port req) in
                  case CheckNetwork checker pluginName
                         \<lparr>nr_Host = tcp_Host req, nr_Port = port\<rparr> of
                    (Some err, evs) \<Rightarrow> (Inl err, trace @ evs)
                  | (None, evs) \<Rightarrow> finish next ctx payload (trace @ evs)))
          else if funcName = ''smtp_connect'' then
            (case unmarshal_SMTP env payload of
               None \<Rightarrow> finish next ctx payload trace
             | Some req \<Rightarrow>
                 (let port = strconv_Atoi env (smtp_Port req) in
                  case CheckNetwork checker pluginName
                         \<lparr>nr_Host = smtp_Host req, nr_Port = port\<rparr> of
                    (Some err, evs) \<Rightarrow> (Inl err, trace @ evs)
                  | (None, evs) \<Rightarrow> finish next ctx payload (trace @ evs)))
          else if funcName = ''http_request'' then
            (case unmarshal_HTTP env payload of
               None \<Rightarrow> finish next ctx payload trace
             | Some req \<Rightarrow>
                 (case checkHTTPCapability env checker pluginName (http_URL req) of
                    (Some err, evs) \<Rightarrow> (Inl err, trace @ evs)
                  | (None, evs) \<Rightarrow> finish next ctx payload (trace @ evs)))
          else if funcName = ''exec_command'' then
            (case unmarshal_Exec env payload of
               None \<Rightarrow> finish next ctx payload trace
             | Some req \<Rightarrow>
                 (let execType =
                        GetExecutionTypeDescription env (exec_Command req) (exec_Args req)
                  in if IsDangerousExecution env (exec_Command req) (exec_Args req) then
                       (case CheckExec checker pluginName (exec_Command req) of
                          (Some err, evs) \<Rightarrow>
                            (Inl (execType @ '' requires '' @ [CHR 0x27] @ ''exec:'' @
                                  exec_Command req @ [CHR 0x27] @ '' capability''),
                             trace @ evs)
                        | (None, evs) \<Rightarrow> finish next ctx payload (trace @ evs))
                     else
                       (case CheckExec checker pluginName (exec_Command req) of
                          (Some err, evs) \<Rightarrow> (Inl err, trace @ evs)
                        | (None, evs) \<Rightarrow> finish next ctx payload (trace @ evs))))
          else finish next ctx payload trace)"

text \<open>
  The payload parses as the request type the function name expects (no request type is
  expected for a function name outside the five of the switch).
\<close>

definition payload_parses :: "host_env \<Rightarrow> string \<Rightarrow> string \<Rightarrow> bool" where
  "payload_parses env funcName payload =
     (if funcName = ''dns_lookup'' then unmarshal_DNS env payload \<noteq> None
      else if funcName = ''tcp_connect'' then unmarshal_TCP env payload \<noteq> None
      else if funcName = ''smtp_connect'' then unmarshal_SMTP env payload \<noteq> None
      else if funcName = ''http_request'' then unmarshal_HTTP env payload \<noteq> None
      else if funcName = ''exec_command'' then unmarshal_Exec env payload \<noteq> None
      else False)"

text \<open>
  The events that consult the policy, and the events that belong to a check of the
  request itself: a call of a \<open>Check\<close> method of the checker, what such a method asks
  the policy, and a denial.  The policy's \<open>EvaluateNetwork\<close> is asked both by
  \<open>AllowsPrivateNetwork\<close> and by \<open>CheckNetworkConnection\<close>; the latter is announced by
  its own event.
\<close>

fun is_policy_call :: "mw_event \<Rightarrow> bool" where
  "is_policy_call (PolicyCheckNetwork r) = True"
| "is_policy_call (PolicyEvaluateNetwork r) = True"
| "is_policy_call (PolicyCheckExec c) = True"
| "is_policy_call e = False"

fun is_request_check :: "mw_event \<Rightarrow> bool" where
  "is_request_check (CheckNetworkCalled p r) = True"
| "is_request_check (CheckNetworkConnectionCalled p h n) = True"
| "is_request_check (CheckExecCalled p c) = True"
| "is_request_check (PolicyCheckNetwork r) = True"
| "is_request_check (PolicyCheckExec c) = True"
| "is_request_check (DenialHandlerCalled p k pat m) = True"
| "is_request_check (PolicyEvaluateNetwork r) = False"
| "is_request_check (AllowsPrivateNetworkCalled p) = False"
| "is_request_check (NextCalled c p) = False"

text \<open>
  An environment for the examples: a payload is the host name itself, and parses as a
  DNS request unless it is empty; nothing else parses.  The policy of the examples
  allows a network request when the grant set has a network rule, and no command.
  \<open>example_checker\<close> has no grants for any plugin and no denial handler;
  \<open>granting_checker\<close> grants the plugin \<open>dns\<close> every host and port.
\<close>

definition example_env :: host_env where
  "example_env =
     \<lparr>unmarshal_DNS = (\<lambda>p. if p = [] then None else Some \<lparr>dns_Hostname = p\<rparr>),
      unmarshal_TCP = (\<lambda>p. None), unmarshal_SMTP = (\<lambda>p. None),
      unmarshal_HTTP = (\<lambda>p. None), unmarshal_Exec = (\<lambda>p. None),
      url_Parse = (\<lambda>u. Inl u), strconv_Atoi = (\<lambda>s. 0),
      IsDangerousExecution = (\<lambda>c a. False), GetExecutionTypeDescription = (\<lambda>c a. [])\<rparr>"

definition example_policy :: Policy where
  "example_policy =
     \<lparr>pol_CheckNetwork = (\<lambda>r g. Network g \<noteq> None \<and> Network g \<noteq> Some []),
      pol_EvaluateNetwork = (\<lambda>r g. Network g \<noteq> None \<and> Network g \<noteq> Some []),
      pol_CheckExec = (\<lambda>c g. False)\<rparr>"

definition example_checker :: CapabilityChecker where
  "example_checker =
     \<lparr>cc_policy = example_policy, grantedCapabilities = Map.empty, has_denialHandler = False\<rparr>"

definition granting_checker :: CapabilityChecker where
  "granting_checker =
     \<lparr>cc_policy = example_policy,
      grantedCapabilities =
        [''dns'' \<mapsto> EmptyGrantSet\<lparr>Network := Some [\<lparr>Hosts = [''*''], Ports = [''*'']\<rparr>]\<rparr>],
      has_denialHandler = False\<rparr>"

text \<open>An inner handler that returns the value it finds under \<open>ssrf_allow_private\<close>.\<close>

definition read_ssrf_flag :: "Ctx \<Rightarrow> string \<Rightarrow> bool option" where
  "read_ssrf_flag ctx payload = ctx_ssrf_allow_private ctx"

section \<open>Properties\<close>

subsection \<open>Splitting\<close>

lemma Contains_single: "Contains s [c] = (c \<in> set s)"
  by (induction s) auto

lemma Split_not_Nil: "Split s c \<noteq> []"
  by (induction s) (auto split: list.splits)

lemma Split_no_sep: "c \<notin> set s \<Longrightarrow> Split s c = [s]"
  by (induction s) auto

lemma Split_append_sep: "c \<notin> set a \<Longrightarrow> Split (a @ c # b) c = a # Split b c"
  by (induction a) auto

subsection \<open>Integrity\<close>

lemma DigestEquals_iff: "DigestEquals d e = (d = e)"
  by (cases d, cases e) (auto simp: DigestEquals_def)

text \<open>
  C5 (as the code has it).  \<open>VerifyDigest\<close> compares unconditionally: it returns the
  integrity error, carrying the expected and the actual digest, exactly when the two
  differ, whether or not the expected digest is empty.  Passing on an empty expected
  digest is done by the caller \<open>LoadPlugin\<close>, which skips the call when the expected
  digest has no value.
\<close>

theorem VerifyDigest_mismatch_iff:
  "VerifyDigest p expected =
     (if digest p = expected then None else Some (IntegrityError expected (digest p)))
   \<and> LoadPlugin_verify p (expected\<lparr>digest_value := []\<rparr>) = None"
  by (simp add: VerifyDigest_def VerifyIntegrity_def DigestEquals_iff LoadPlugin_verify_def)

theorem VerifyDigest_mismatch_iff_witness:
  "VerifyDigest
     \<lparr>reference = EmbeddedReference ''file'',
      digest = \<lparr>algorithm = ''sha256'', digest_value = ''abc''\<rparr>,
      metadata = \<lparr>meta_name = ''file'', meta_version = ''1.0'', meta_description = [],
                  meta_capabilities = []\<rparr>\<rparr>
     \<lparr>algorithm = ''sha256'', digest_value = ''def''\<rparr>
   = Some (IntegrityError \<lparr>algorithm = ''sha256'', digest_value = ''def''\<rparr>
                          \<lparr>algorithm = ''sha256'', digest_value = ''abc''\<rparr>)"
  using VerifyDigest_mismatch_iff
    [of "\<lparr>reference = EmbeddedReference ''file'',
         digest = \<lparr>algorithm = ''sha256'', digest_value = ''abc''\<rparr>,
         metadata = \<lparr>meta_name = ''file'', meta_version = ''1.0'', meta_description = [],
                     meta_capabilities = []\<rparr>\<rparr>"
        "\<lparr>algorithm = ''sha256'', digest_value = ''def''\<rparr>"]
  by simp


text \<open>
  C5 as stated fails: with the empty expected digest and a plugin whose digest is
  \<open>sha256:abc\<close>, \<open>VerifyDigest\<close> returns the integrity error.
\<close>

theorem VerifyDigest_empty_expected_counterexample:
  "VerifyDigest
     \<lparr>reference = EmbeddedReference ''file'',
      digest = \<lparr>algorithm = ''sha256'', digest_value = ''abc''\<rparr>,
      metadata = \<lparr>meta_name = ''file'', meta_version = ''1.0'', meta_description = [],
                  meta_capabilities = []\<rparr>\<rparr>
     EmptyDigest
   = Some (IntegrityError EmptyDigest \<lparr>algorithm = ''sha256'', digest_value = ''abc''\<rparr>)"
  by (simp add: VerifyDigest_def VerifyIntegrity_def DigestEquals_def EmptyDigest_def)

subsection \<open>Reference round trip\<close>


lemma Split_parts_no_sep: "p \<in> set (Split s c) \<Longrightarrow> c \<notin> set p"
  by (induction s arbitrary: p) (auto split: if_splits list.splits)

lemma Split_length: "length (Split s c) = Suc (length (filter (\<lambda>x. x = c) s))"
  by (induction s) (auto split: list.splits)

lemma Split_single: "Split s c = [b] \<Longrightarrow> s = b"
proof -
  assume h: "Split s c = [b]"
  then have "length (filter (\<lambda>x. x = c) s) = 0"
    using Split_length [of s c] by simp
  then have "c \<notin> set s" by (auto simp: filter_empty_conv)
  with h show ?thesis by (simp add: Split_no_sep)
qed

lemma Split_last_shorter: "c \<in> set t \<Longrightarrow> length (last (Split t c)) < length t"
proof (induction t)
  case Nil then show ?case by simp
next
  case (Cons x xs)
  show ?case
  proof (cases "c \<in> set xs")
    case True
    with Cons.IH have "length (last (Split xs c)) < length xs" by simp
    then show ?thesis by (auto simp: Split_not_Nil split: list.splits)
  next
    case False
    with Cons.prems have "x = c" by simp
    with False show ?thesis by (simp add: Split_no_sep)
  qed
qed

lemma Split_hd_length: "length (hd (Split u c)) \<le> length u"
  by (induction u) (auto split: list.splits)

lemma Split_two: "Split u c = [a, b] \<Longrightarrow> u = a @ c # b"
proof (induction u arbitrary: a)
  case Nil then show ?case by simp
next
  case (Cons x xs)
  show ?case
  proof (cases "x = c")
    case True
    with Cons.prems have "a = []" "Split xs c = [b]" by auto
    then show ?thesis using True by (simp add: Split_single)
  next
    case False
    with Cons.prems obtain a' where "a = x # a'" "Split xs c = [a', b]"
      by (auto split: list.splits)
    with Cons.IH show ?thesis by simp
  qed
qed

lemma parse_canonical:
  assumes "canonical_ref r" shows "ParsePluginReference (String r) = Inr r"
proof (cases "ref_registry r = []")
  case True
  with assms show ?thesis
    by (simp add: canonical_ref_def String_def IsEmbedded_def ParsePluginReference_def
        Contains_single EmbeddedReference_def)
next
  case False
  with assms have
    s: "CHR ''/'' \<notin> set (ref_registry r)" "CHR ''/'' \<notin> set (ref_org r)"
       "CHR ''/'' \<notin> set (ref_repo r)" "CHR ''/'' \<notin> set (ref_name r)"
       "CHR ''/'' \<notin> set (ref_version r)"
       "CHR '':'' \<notin> set (ref_name r)" "CHR '':'' \<notin> set (ref_version r)"
    by (simp_all add: canonical_ref_def)
  have tail: "Split (ref_name r @ CHR '':'' # ref_version r) CHR ''/''
      = [ref_name r @ CHR '':'' # ref_version r]"
    using s by (simp add: Split_no_sep)
  have parts: "Split (String r) CHR ''/'' =
     [ref_registry r, ref_org r, ref_repo r, ref_name r @ CHR '':'' # ref_version r]"
    using False s tail by (simp add: String_def IsEmbedded_def Split_append_sep)
  have nv: "Split (ref_name r @ CHR '':'' # ref_version r) CHR '':'' = [ref_name r, ref_version r]"
    using s by (simp add: Split_append_sep Split_no_sep)
  have c: "Contains (String r) ''/''"
    using False by (simp add: Contains_single String_def IsEmbedded_def)
  show ?thesis
    unfolding ParsePluginReference_def using c parts nv by (simp add: Let_def)
qed


lemma nth_last: "xs \<noteq> [] \<Longrightarrow> xs ! (length xs - 1) = last xs"
  by (simp add: last_conv_nth)

lemma parse_full_only_canonical:
  assumes reg: "ref_registry r \<noteq> []"
      and p: "ParsePluginReference (String r) = Inr r"
  shows "canonical_ref r"
proof -
  let ?t = "ref_name r @ CHR '':'' # ref_version r"
  let ?s3 = "ref_repo r @ CHR ''/'' # ?t"
  let ?s2 = "ref_org r @ CHR ''/'' # ?s3"
  have S: "String r = ref_registry r @ CHR ''/'' # ?s2"
    using reg by (simp add: String_def IsEmbedded_def)
  define parts where "parts = Split (String r) CHR ''/''"
  define nv where "nv = Split (parts ! (length parts - 1)) CHR '':''"
  have c: "Contains (String r) ''/''" by (simp add: S Contains_single)
  from p c have len: "4 \<le> length parts" and nvl: "length nv = 2"
    and e: "\<lparr>ref_registry = parts ! 0, ref_org = parts ! 1, ref_repo = parts ! 2,
             ref_name = nv ! 0, ref_version = nv ! 1\<rparr> = r"
    unfolding ParsePluginReference_def parts_def nv_def
    by (auto simp: Let_def split: if_splits)
  have f: "ref_registry r = parts ! 0" "ref_org r = parts ! 1" "ref_repo r = parts ! 2"
          "ref_name r = nv ! 0" "ref_version r = nv ! 1"
    using arg_cong [OF e, of ref_registry] arg_cong [OF e, of ref_org]
      arg_cong [OF e, of ref_repo] arg_cong [OF e, of ref_name]
      arg_cong [OF e, of ref_version] by simp_all
  have mem: "\<And>i. i < length parts \<Longrightarrow> CHR ''/'' \<notin> set (parts ! i)"
    unfolding parts_def using Split_parts_no_sep [OF nth_mem] by blast
  have l: "0 < length parts" "1 < length parts" "2 < length parts" using len by arith+
  have r1: "CHR ''/'' \<notin> set (ref_registry r)" using mem [OF l(1)] f by simp
  then have P1: "parts = ref_registry r # Split ?s2 CHR ''/''"
    unfolding parts_def S by (rule Split_append_sep)
  have r2: "CHR ''/'' \<notin> set (ref_org r)" using mem [OF l(2)] f by simp
  then have P2: "Split ?s2 CHR ''/'' = ref_org r # Split ?s3 CHR ''/''"
    by (rule Split_append_sep)
  have r3: "CHR ''/'' \<notin> set (ref_repo r)" using mem [OF l(3)] f by simp
  then have P3: "Split ?s3 CHR ''/'' = ref_repo r # Split ?t CHR ''/''"
    by (rule Split_append_sep)
  have P: "parts = ref_registry r # ref_org r # ref_repo r # Split ?t CHR ''/''"
    using P1 P2 P3 by simp
  have lastp: "parts ! (length parts - 1) = last (Split ?t CHR ''/'')"
    using P Split_not_Nil [of ?t "CHR ''/''"] by (simp add: last_conv_nth)
  from nvl f have "nv = [ref_name r, ref_version r]"
    by (cases nv; cases "tl nv") auto
  then have two: "Split (last (Split ?t CHR ''/'')) CHR '':'' = [ref_name r, ref_version r]"
    using lastp by (simp add: nv_def)
  then have eq: "last (Split ?t CHR ''/'') = ?t" by (rule Split_two)
  have nosl: "CHR ''/'' \<notin> set ?t"
  proof
    assume "CHR ''/'' \<in> set ?t"
    then have "length (last (Split ?t CHR ''/'')) < length ?t" by (rule Split_last_shorter)
    with eq show False by simp
  qed
  have "ref_name r \<in> set (Split ?t CHR '':'')" "ref_version r \<in> set (Split ?t CHR '':'')"
    using two eq by simp_all
  then have "CHR '':'' \<notin> set (ref_name r)" "CHR '':'' \<notin> set (ref_version r)"
    by (auto dest: Split_parts_no_sep)
  with nosl r1 r2 r3 reg show ?thesis by (simp add: canonical_ref_def)
qed

lemma parse_embedded_only_canonical:
  assumes reg: "ref_registry r = []"
      and p: "ParsePluginReference (String r) = Inr r"
  shows "canonical_ref r"
proof (cases "\<not> Contains (ref_name r) ''/'' \<and> \<not> Contains (ref_name r) '':''")
  case True
  with p reg have "r = EmbeddedReference (ref_name r)"
    by (simp add: ParsePluginReference_def String_def IsEmbedded_def)
  then have "ref_org r = []" "ref_repo r = []" "ref_version r = []"
    by (metis EmbeddedReference_def PluginReference.select_convs)+
  with True reg show ?thesis by (simp add: canonical_ref_def Contains_single)
next
  case False
  define parts where "parts = Split (ref_name r) CHR ''/''"
  define nv where "nv = Split (parts ! (length parts - 1)) CHR '':''"
  from p reg False have len: "4 \<le> length parts" and nvl: "length nv = 2"
    and e: "\<lparr>ref_registry = parts ! 0, ref_org = parts ! 1, ref_repo = parts ! 2,
             ref_name = nv ! 0, ref_version = nv ! 1\<rparr> = r"
    unfolding ParsePluginReference_def parts_def nv_def String_def IsEmbedded_def
    by (auto simp: Let_def split: if_splits)
  have f: "ref_name r = nv ! 0"
    using arg_cong [OF e, of ref_name] by simp
  have "CHR ''/'' \<in> set (ref_name r)"
  proof (rule ccontr)
    assume "CHR ''/'' \<notin> set (ref_name r)"
    then have "parts = [ref_name r]" unfolding parts_def by (rule Split_no_sep)
    with len show False by simp
  qed
  then have "length (last parts) < length (ref_name r)"
    unfolding parts_def by (rule Split_last_shorter)
  moreover have "parts ! (length parts - 1) = last parts"
    using len by (intro nth_last) auto
  moreover have "length (hd nv) \<le> length (parts ! (length parts - 1))"
    unfolding nv_def by (rule Split_hd_length)
  moreover have "nv ! 0 = hd nv" using nvl by (cases nv) auto
  ultimately have "length (nv ! 0) < length (ref_name r)" by simp
  with f show ?thesis by simp
qed

text \<open>
  C8 (as the code has it).  Parsing the canonical string of a reference gives the
  reference back exactly on the canonical references: an embedded one carries a name
  only, free of \<open>/\<close> and \<open>:\<close>; a full one has a non-empty registry, no
  \<open>/\<close> in any of its five components and no \<open>:\<close> in its name and version.
\<close>

theorem ParsePluginReference_String_roundtrip:
  "(\<exists>p. ParsePluginReference (String r) = Inr p \<and> Equals p r) \<longleftrightarrow> canonical_ref r"
proof -
  have "Equals p r = (p = r)" for p
    by (cases p, cases r) (auto simp: Equals_def)
  then have "(\<exists>p. ParsePluginReference (String r) = Inr p \<and> Equals p r)
      \<longleftrightarrow> ParsePluginReference (String r) = Inr r" by auto
  then show ?thesis
    using parse_canonical parse_full_only_canonical parse_embedded_only_canonical by blast
qed

theorem ParsePluginReference_String_roundtrip_witness:
  "(\<exists>p. ParsePluginReference
          (String (NewPluginReference ''ghcr.io'' ''whiskeyjimbo'' ''reglet-plugins'' ''file''
                     ''1.0.2'')) = Inr p \<and>
        Equals p (NewPluginReference ''ghcr.io'' ''whiskeyjimbo'' ''reglet-plugins'' ''file''
                    ''1.0.2'')) \<and>
   (\<exists>p. ParsePluginReference (String (EmbeddedReference ''file'')) = Inr p \<and>
        Equals p (EmbeddedReference ''file''))"
proof -
  let ?full = "NewPluginReference ''ghcr.io'' ''whiskeyjimbo'' ''reglet-plugins'' ''file'' ''1.0.2''"
  have "canonical_ref ?full" by (simp add: canonical_ref_def NewPluginReference_def)
  moreover have "canonical_ref (EmbeddedReference ''file'')"
    by (simp add: canonical_ref_def EmbeddedReference_def)
  ultimately show ?thesis
    using ParsePluginReference_String_roundtrip [of ?full]
      ParsePluginReference_String_roundtrip [of "EmbeddedReference ''file''"]
    by blast
qed

text \<open>
  C8 as stated fails: a full reference whose repository has two segments,
  \<open>ghcr.io/reglet-dev/plugins/core/file:1.0.0\<close>, parses to a reference whose
  repository is \<open>plugins\<close>, which \<open>Equals\<close> tells apart from the original.
\<close>

theorem ParsePluginReference_String_counterexample:
  "ParsePluginReference
     (String (NewPluginReference ''ghcr.io'' ''reglet-dev'' ''plugins/core'' ''file'' ''1.0.0''))
   = Inr (NewPluginReference ''ghcr.io'' ''reglet-dev'' ''plugins'' ''file'' ''1.0.0'')
   \<and> \<not> Equals (NewPluginReference ''ghcr.io'' ''reglet-dev'' ''plugins'' ''file'' ''1.0.0'')
               (NewPluginReference ''ghcr.io'' ''reglet-dev'' ''plugins/core'' ''file'' ''1.0.0'')"
  by (simp add: ParsePluginReference_def String_def IsEmbedded_def NewPluginReference_def
      Equals_def Let_def)

subsection \<open>Risk classification\<close>

lemma addFactor_levels:
  "RiskNone < l \<Longrightarrow> map Level (RiskFactors (addFactor r l d s)) = map Level (RiskFactors r) @ [l]"
  by (simp add: addFactor_def Let_def)

lemma addFactor_ReportLevel:
  "RiskNone < l \<Longrightarrow> ReportLevel (addFactor r l d s) = max l (ReportLevel r)"
  by (simp add: addFactor_def Let_def max_def)

lemma isWildcardHost_iff: "isWildcardHost hs = (''*'' \<in> set hs \<or> ''0.0.0.0'' \<in> set hs)"
  by (induction hs) auto

lemma analyzeNetworkRule_step:
  "map Level (RiskFactors (analyzeNetworkRule r rule)) = map Level (RiskFactors r) @ [network_rule_level rule]"
  "ReportLevel (analyzeNetworkRule r rule) = max (network_rule_level rule) (ReportLevel r)"
  by (simp_all add: analyzeNetworkRule_def Let_def addFactor_levels addFactor_ReportLevel
      isWildcardHost_iff network_rule_level_def RiskNone_def RiskCritical_def RiskMedium_def)

lemma analyzeFSRule_step:
  "map Level (RiskFactors (analyzeFSRule r rule)) = map Level (RiskFactors r) @ fs_rule_levels rule"
  "ReportLevel (analyzeFSRule r rule) = fold max (fs_rule_levels rule) (ReportLevel r)"
  by (simp_all add: analyzeFSRule_def Let_def addFactor_levels addFactor_ReportLevel
      fs_rule_levels_def RiskNone_def RiskHigh_def RiskMedium_def)

lemma foldl_network:
  "map Level (RiskFactors (foldl analyzeNetworkRule r rules)) =
     map Level (RiskFactors r) @ map network_rule_level rules \<and>
   ReportLevel (foldl analyzeNetworkRule r rules) =
     fold max (map network_rule_level rules) (ReportLevel r)"
  by (induction rules arbitrary: r) (simp_all add: analyzeNetworkRule_step)

lemma foldl_fs:
  "map Level (RiskFactors (foldl analyzeFSRule r rules)) =
     map Level (RiskFactors r) @ concat (map fs_rule_levels rules) \<and>
   ReportLevel (foldl analyzeFSRule r rules) =
     fold max (concat (map fs_rule_levels rules)) (ReportLevel r)"
  by (induction rules arbitrary: r) (simp_all add: analyzeFSRule_step)

lemma AnalyzeRisk_Some:
  "map Level (RiskFactors (AnalyzeRisk (Some g))) = classified_levels g \<and>
   ReportLevel (AnalyzeRisk (Some g)) = fold max (classified_levels g) RiskNone"
  by (simp add: AnalyzeRisk_def Let_def classified_levels_def foldl_network foldl_fs
      addFactor_levels addFactor_ReportLevel RiskNone_def RiskCritical_def RiskLow_def
      split: option.splits)

text \<open>
  C10.  \<open>AnalyzeRisk\<close> on a nil grant set reports no factor and level \<open>RiskNone\<close>.
  On a grant set, the levels of its factors are, in order: for each network rule
  Critical when a host is \<open>*\<close> or \<open>0.0.0.0\<close> and Medium otherwise; for each
  filesystem rule High when it has write paths, then Medium when it has read paths;
  Critical when there are exec commands; Low when there are env variables.  The
  report's level is the maximum of these levels, \<open>RiskNone\<close> when there is none.
\<close>

theorem AnalyzeRisk_classification:
  "AnalyzeRisk None = \<lparr>RiskFactors = [], ReportLevel = RiskNone\<rparr> \<and>
   map Level (RiskFactors (AnalyzeRisk (Some g))) = classified_levels g \<and>
   ReportLevel (AnalyzeRisk (Some g)) = Max (insert RiskNone (set (classified_levels g)))"
proof -
  have "Max (insert RiskNone (set (classified_levels g))) = fold max (classified_levels g) RiskNone"
    using Max.set_eq_fold [of RiskNone "classified_levels g"] by simp
  then show ?thesis using AnalyzeRisk_Some [of g] by (simp add: AnalyzeRisk_def)
qed

theorem AnalyzeRisk_classification_witness:
  "map Level (RiskFactors (AnalyzeRisk (Some
     \<lparr>Network = Some [\<lparr>Hosts = [''api.example.com''], Ports = [''443'']\<rparr>,
                      \<lparr>Hosts = [''example.org'', ''0.0.0.0''], Ports = [''80'']\<rparr>],
      FS = Some [\<lparr>Read = [''/etc/hosts''], Write = [''/tmp/out'']\<rparr>],
      Env = Some [''HOME''], Exec = Some [''/bin/ls'']\<rparr>)))
   = [RiskMedium, RiskCritical, RiskHigh, RiskMedium, RiskCritical, RiskLow]
   \<and> ReportLevel (AnalyzeRisk (Some
     \<lparr>Network = Some [\<lparr>Hosts = [''api.example.com''], Ports = [''443'']\<rparr>,
                      \<lparr>Hosts = [''example.org'', ''0.0.0.0''], Ports = [''80'']\<rparr>],
      FS = Some [\<lparr>Read = [''/etc/hosts''], Write = [''/tmp/out'']\<rparr>],
      Env = Some [''HOME''], Exec = Some [''/bin/ls'']\<rparr>)) = RiskCritical"
  using AnalyzeRisk_classification
    [of "\<lparr>Network = Some [\<lparr>Hosts = [''api.example.com''], Ports = [''443'']\<rparr>,
                         \<lparr>Hosts = [''example.org'', ''0.0.0.0''], Ports = [''80'']\<rparr>],
         FS = Some [\<lparr>Read = [''/etc/hosts''], Write = [''/tmp/out'']\<rparr>],
         Env = Some [''HOME''], Exec = Some [''/bin/ls'']\<rparr>"]
  by (simp add: classified_levels_def network_rule_level_def fs_rule_levels_def
      RiskNone_def RiskLow_def RiskMedium_def RiskHigh_def RiskCritical_def)

subsection \<open>Path-traversal defence of the plugin repository\<close>

lemma Store_after_violation:
  "pluginPath root (reference plugin) = Inl e \<Longrightarrow> Store fails root plugin = (Inl e, [])"
  by (simp add: Store_def)

lemma Delete_after_violation:
  "pluginPath root ref = Inl e \<Longrightarrow> Delete fails root ref = (Some e, [])"
  by (simp add: Delete_def)

text \<open>Joining and splitting at the separator.\<close>

lemma Join_snoc: "Join (xs @ [x]) sep = (if xs = [] then x else Join xs sep @ sep @ x)"
  by (induction xs sep rule: Join.induct) auto

lemma Join_Nil_iff: "\<forall>x \<in> set xs. x \<noteq> [] \<Longrightarrow> Join xs sep = [] \<longleftrightarrow> xs = []"
  by (induction xs sep rule: Join.induct) auto

lemma Join_append_length: "length (Join xs sep) \<le> length (Join (xs @ ys) sep)"
proof (induction ys rule: rev_induct)
  case Nil
  then show ?case by simp
next
  case (snoc y ys)
  have "length (Join (xs @ ys) sep) \<le> length (Join ((xs @ ys) @ [y]) sep)"
    unfolding Join_snoc by simp
  with snoc show ?case by simp
qed

lemma Split_append: "Split (a @ c # b) c = Split a c @ Split b c"
proof (induction a)
  case Nil
  then show ?case by simp
next
  case (Cons x a)
  then show ?case using Split_not_Nil [of a c] by (auto split: list.splits)
qed

lemma Split_Join:
  "xs \<noteq> [] \<Longrightarrow> \<forall>x \<in> set xs. c \<notin> set x \<Longrightarrow> Split (Join xs [c]) c = xs"
proof (induction xs "[c]" rule: Join.induct)
  case 1
  then show ?case by simp
next
  case (2 x)
  then show ?case by (simp add: Split_no_sep)
next
  case (3 x y ys)
  then show ?case by (simp add: Split_append_sep)
qed

lemma Split_takeWhile:
  "Split s c = takeWhile (\<lambda>x. x \<noteq> c) s #
     (case dropWhile (\<lambda>x. x \<noteq> c) s of [] \<Rightarrow> [] | d # t \<Rightarrow> Split t c)"
  by (induction s) (auto split: list.splits)

text \<open>
  Backtracking over a name stops at the separator before it, or at the floor when the
  name starts there.
\<close>

lemma backtrack_slash:
  "CHR ''/'' \<notin> set x \<Longrightarrow> d \<le> length T \<Longrightarrow> k \<le> length x \<Longrightarrow>
   backtrack (T @ CHR ''/'' # x) d (length T + k) = length T"
proof (induction k)
  case 0
  then show ?case by (simp add: backtrack.simps)
next
  case (Suc k)
  have "(T @ CHR ''/'' # x) ! (length T + Suc k) = x ! k"
    by (simp add: nth_append)
  moreover have "x ! k \<noteq> CHR ''/''" using Suc.prems by (metis Suc_le_lessD nth_mem)
  ultimately show ?case using Suc
    by (subst backtrack.simps) simp
qed

lemma backtrack_floor:
  "CHR ''/'' \<notin> set x \<Longrightarrow> k < length x \<Longrightarrow>
   backtrack (T @ x) (length T) (length T + k) = length T"
proof (induction k)
  case 0
  then show ?case by (simp add: backtrack.simps)
next
  case (Suc k)
  have "(T @ x) ! (length T + Suc k) = x ! Suc k"
    by (simp add: nth_append)
  moreover have "x ! Suc k \<noteq> CHR ''/''" using Suc.prems by (metis nth_mem)
  ultimately show ?case using Suc
    by (subst backtrack.simps) simp
qed

lemma proper_nonempty: "\<forall>c \<in> set cs. proper c \<Longrightarrow> \<forall>c \<in> set cs. c \<noteq> []"
  by (simp add: proper_def)

lemma updirs_nonempty: "\<forall>c \<in> set (replicate u ''..''). c \<noteq> []"
  by simp

text \<open>The buffer of a place: after entering a name, after climbing, and after leaving a name.\<close>

lemma enc_push:
  assumes "\<forall>c \<in> set cs. proper c"
  shows "enc rooted (u, cs @ [x])
    = (if rooted \<and> length (enc rooted (u, cs)) \<noteq> 1 \<or> \<not> rooted \<and> length (enc rooted (u, cs)) \<noteq> 0
       then enc rooted (u, cs) @ ''/'' else enc rooted (u, cs)) @ x"
proof (cases rooted)
  case True
  have "Join cs ''/'' = [] \<longleftrightarrow> cs = []"
    using Join_Nil_iff [OF proper_nonempty [OF assms]] .
  with True show ?thesis by (simp add: enc_def Join_snoc)
next
  case False
  have ne: "\<forall>c \<in> set (replicate u ''..'' @ cs). c \<noteq> []"
    using proper_nonempty [OF assms] by auto
  have "Join (replicate u ''..'' @ cs) ''/'' = [] \<longleftrightarrow> replicate u ''..'' @ cs = []"
    using Join_Nil_iff [OF ne] .
  moreover have "Join (replicate u ''..'' @ cs @ [x]) ''/''
      = (if replicate u ''..'' @ cs = [] then x
         else Join (replicate u ''..'' @ cs) ''/'' @ ''/'' @ x)"
    using Join_snoc [of "replicate u ''..'' @ cs" x "''/''"] by simp
  ultimately show ?thesis using False by (simp add: enc_def)
qed

lemma enc_climb:
  "enc False (Suc u, [])
     = (if length (enc False (u, [])) > 0 then enc False (u, []) @ ''/'' else enc False (u, []))
       @ ''..''"
proof -
  define R where "R = replicate u ''..''"
  have ne: "\<forall>c \<in> set R. c \<noteq> []" by (simp add: R_def)
  have S: "replicate (Suc u) ''..'' = R @ [''..'']"
    by (simp add: R_def replicate_append_same)
  have "Join (R @ [''..'']) ''/''
      = (if length (Join R ''/'') > 0 then Join R ''/'' @ ''/'' else Join R ''/'') @ ''..''"
    using Join_Nil_iff [OF ne, of "''/''"] by (simp add: Join_snoc)
  then show ?thesis unfolding enc_def fst_conv snd_conv append_Nil2 S R_def [symmetric]
    by simp
qed

lemma floor_climb: "floor_of False (Suc u) = length (enc False (Suc u, []))"
  by (simp add: floor_of_def enc_def)

lemma floor_bottom: "(rooted \<longrightarrow> u = 0) \<Longrightarrow> floor_of rooted u = length (enc rooted (u, []))"
  by (simp add: floor_of_def enc_def)

lemma enc_pop:
  assumes p: "\<forall>c \<in> set (bs @ [x]). proper c"
  shows "floor_of rooted u < length (enc rooted (u, bs @ [x])) \<and>
     take (backtrack (enc rooted (u, bs @ [x])) (floor_of rooted u)
             (length (enc rooted (u, bs @ [x])) - 1))
          (enc rooted (u, bs @ [x]))
       = enc rooted (u, bs)"
proof -
  have x: "x \<noteq> []" "CHR ''/'' \<notin> set x" using p by (auto simp: proper_def)
  then have lx: "length x - 1 < length x" by (cases x) auto
  have pb: "\<forall>c \<in> set bs. proper c" using p by simp
  let ?T = "enc rooted (u, bs)"
  let ?d = "floor_of rooted u"
  have push: "enc rooted (u, bs @ [x])
    = (if rooted \<and> length ?T \<noteq> 1 \<or> \<not> rooted \<and> length ?T \<noteq> 0 then ?T @ ''/'' else ?T) @ x"
    using enc_push [OF pb] .
  have dT: "?d \<le> length ?T"
    using Join_append_length [of "replicate u ''..''" "''/''" bs]
    by (simp add: floor_of_def enc_def)
  show ?thesis
  proof (cases "rooted \<and> length ?T \<noteq> 1 \<or> \<not> rooted \<and> length ?T \<noteq> 0")
    case True
    then have e: "enc rooted (u, bs @ [x]) = ?T @ CHR ''/'' # x" using push by simp
    have "backtrack (?T @ CHR ''/'' # x) ?d (length ?T + length x) = length ?T"
      using backtrack_slash [OF x(2) dT, of "length x"] by simp
    then show ?thesis unfolding e using dT by simp
  next
    case False
    then have e: "enc rooted (u, bs @ [x]) = ?T @ x" using push by simp
    have dd: "?d = length ?T"
    proof (cases rooted)
      case True
      with False show ?thesis by (simp add: floor_of_def)
    next
      case r: False
      with False have "length ?T = 0" by simp
      with dT show ?thesis by simp
    qed
    have "backtrack (?T @ x) (length ?T) (length ?T + (length x - 1)) = length ?T"
      using backtrack_floor [OF x(2) lx] .
    moreover have "length (?T @ x) - 1 = length ?T + (length x - 1)" using x(1) by (cases x) auto
    ultimately show ?thesis unfolding e dd using x(1) by simp
  qed
qed

lemma enc_above_floor:
  assumes "\<forall>c \<in> set cs. proper c" "rooted \<longrightarrow> u = 0"
  shows "floor_of rooted u < length (enc rooted (u, cs)) \<longleftrightarrow> cs \<noteq> []"
proof (cases cs rule: rev_cases)
  case Nil
  then show ?thesis using floor_bottom [OF assms(2)] by simp
next
  case (snoc bs x)
  with enc_pop [of bs x rooted u] assms(1) show ?thesis by simp
qed

text \<open>One round of the loop reads one component of the path.\<close>

lemma is_dot_iff: "is_dot s \<longleftrightarrow> s = ''.'' \<or> (\<exists>t. s = ''./'' @ t)"
  by (cases s rule: is_dot.cases) auto

lemma is_dotdot_iff: "is_dotdot s \<longleftrightarrow> s = ''..'' \<or> (\<exists>t. s = ''../'' @ t)"
  by (cases s rule: is_dotdot.cases) auto

lemma walk_empty [simp]: "walk b st [] = st"
  by (cases st) (simp add: walk.simps)

lemma walk_dot [simp]: "walk b st ''.'' = st"
  by (cases st) (simp add: walk.simps)

lemma walk_dotdot:
  "walk b (u, cs) ''..''
     = (if cs \<noteq> [] then (u, butlast cs) else if b then (u, cs) else (Suc u, cs))"
  by (simp add: walk.simps)

lemma walk_proper: "proper c \<Longrightarrow> walk b (u, cs) c = (u, cs @ [c])"
  by (simp add: proper_def walk.simps)

lemma fold_slash:
  "foldl (walk b) st (Split (CHR ''/'' # r) CHR ''/'') = foldl (walk b) st (Split r CHR ''/'')"
  by simp

lemma fold_dot:
  "is_dot (c # r) \<Longrightarrow>
   foldl (walk b) st (Split (c # r) CHR ''/'') = foldl (walk b) st (Split r CHR ''/'')"
  by (auto simp: is_dot_iff)

lemma fold_dotdot:
  "is_dotdot (c # r) \<Longrightarrow>
   foldl (walk b) st (Split (c # r) CHR ''/'')
     = foldl (walk b) (walk b st ''..'') (Split (tl r) CHR ''/'')"
  by (auto simp: is_dotdot_iff)

lemma fold_name:
  assumes "c \<noteq> CHR ''/''"
  shows "foldl (walk b) st (Split (c # r) CHR ''/'')
     = foldl (walk b) (walk b st (c # takeWhile (\<lambda>x. x \<noteq> CHR ''/'') r))
         (Split (dropWhile (\<lambda>x. x \<noteq> CHR ''/'') r) CHR ''/'')"
proof -
  define n where "n = c # takeWhile (\<lambda>x. x \<noteq> CHR ''/'') r"
  define r' where "r' = dropWhile (\<lambda>x. x \<noteq> CHR ''/'') r"
  have S: "Split (c # r) CHR ''/'' = n # (case r' of [] \<Rightarrow> [] | d # t \<Rightarrow> Split t CHR ''/'')"
    using Split_takeWhile [of "c # r" "CHR ''/''"] assms by (simp add: n_def r'_def)
  have "foldl (walk b) st (n # (case r' of [] \<Rightarrow> [] | d # t \<Rightarrow> Split t CHR ''/''))
      = foldl (walk b) (walk b st n) (Split r' CHR ''/'')"
  proof (cases r')
    case Nil
    then show ?thesis by simp
  next
    case (Cons d t)
    then have "d = CHR ''/''"
      using hd_dropWhile [of "\<lambda>x. x \<noteq> CHR ''/''" r] by (auto simp: r'_def)
    with Cons show ?thesis by simp
  qed
  then show ?thesis unfolding S n_def r'_def .
qed

lemma name_proper:
  assumes "c \<noteq> CHR ''/''" "\<not> is_dot (c # r)" "\<not> is_dotdot (c # r)"
  shows "proper (c # takeWhile (\<lambda>x. x \<noteq> CHR ''/'') r)"
proof -
  let ?n = "c # takeWhile (\<lambda>x. x \<noteq> CHR ''/'') r"
  have s: "CHR ''/'' \<notin> set ?n" using assms(1) by (auto dest: set_takeWhileD)
  have tw: "takeWhile (\<lambda>x. x \<noteq> CHR ''/'') t = [] \<Longrightarrow> t = [] \<or> (\<exists>t'. t = CHR ''/'' # t')" for t
    by (cases t) (auto split: if_splits)
  have d: "?n \<noteq> ''.''"
  proof
    assume "?n = ''.''"
    then have "c = CHR ''.''" "takeWhile (\<lambda>x. x \<noteq> CHR ''/'') r = []" by auto
    with tw [of r] have "is_dot (c # r)" by (auto simp: is_dot_iff)
    with assms(2) show False by simp
  qed
  have dd: "?n \<noteq> ''..''"
  proof
    assume e: "?n = ''..''"
    then have c: "c = CHR ''.''" and t: "takeWhile (\<lambda>x. x \<noteq> CHR ''/'') r = ''.''" by auto
    from t obtain r' where r: "r = CHR ''.'' # r'" "takeWhile (\<lambda>x. x \<noteq> CHR ''/'') r' = []"
      by (cases r) (auto split: if_splits)
    with tw [of r'] c have "is_dotdot (c # r)" by (auto simp: is_dotdot_iff)
    with assms(3) show False by simp
  qed
  show ?thesis using s d dd by (simp add: proper_def)
qed

text \<open>
  Started on the buffer of a normal place, the loop returns the buffer of the place
  reached through the components of the input that is left.
\<close>

lemma clean_loop_walk:
  "\<forall>c \<in> set cs. proper c \<Longrightarrow> (rooted \<longrightarrow> u = 0) \<Longrightarrow>
   clean_loop rooted rest (enc rooted (u, cs)) (floor_of rooted u)
     = enc rooted (foldl (walk rooted) (u, cs) (Split rest CHR ''/''))"
proof (induction "length rest" arbitrary: rest u cs rule: less_induct)
  case less
  note IH = less.hyps
  note p = less.prems(1)
  note ru = less.prems(2)
  let ?out = "enc rooted (u, cs)"
  let ?d = "floor_of rooted u"
  show ?case
  proof (cases rest)
    case Nil
    then show ?thesis by (simp add: clean_loop.simps)
  next
    case (Cons c r)
    consider (slash) "c = CHR ''/''"
      | (dot) "c \<noteq> CHR ''/''" "is_dot (c # r)"
      | (dotdot) "c \<noteq> CHR ''/''" "\<not> is_dot (c # r)" "is_dotdot (c # r)"
      | (name) "c \<noteq> CHR ''/''" "\<not> is_dot (c # r)" "\<not> is_dotdot (c # r)"
      by blast
    then show ?thesis
    proof cases
      case slash
      have "clean_loop rooted rest ?out ?d = clean_loop rooted r ?out ?d"
        unfolding Cons using slash by (simp add: clean_loop.simps)
      also have "\<dots> = enc rooted (foldl (walk rooted) (u, cs) (Split r CHR ''/''))"
        using IH [of r cs u] p ru Cons by simp
      finally show ?thesis unfolding Cons slash fold_slash .
    next
      case dot
      have "clean_loop rooted rest ?out ?d = clean_loop rooted r ?out ?d"
        unfolding Cons using dot by (simp add: clean_loop.simps)
      also have "\<dots> = enc rooted (foldl (walk rooted) (u, cs) (Split r CHR ''/''))"
        using IH [of r cs u] p ru Cons by simp
      finally show ?thesis unfolding Cons fold_dot [OF dot(2)] .
    next
      case dotdot
      have lt: "length (tl r) < length rest" unfolding Cons by (cases r) auto
      have f: "foldl (walk rooted) (u, cs) (Split rest CHR ''/'')
          = foldl (walk rooted) (walk rooted (u, cs) ''..'') (Split (tl r) CHR ''/'')"
        unfolding Cons by (rule fold_dotdot [OF dotdot(3)])
      show ?thesis
      proof (cases cs rule: rev_cases)
        case (snoc bs x)
        have pop: "?d < length ?out"
          "take (backtrack ?out ?d (length ?out - 1)) ?out = enc rooted (u, bs)"
          using enc_pop [of bs x rooted u] p snoc by simp_all
        have "clean_loop rooted rest ?out ?d = clean_loop rooted (tl r) (enc rooted (u, bs)) ?d"
          unfolding Cons using dotdot pop by (simp add: clean_loop.simps)
        also have "\<dots> = enc rooted (foldl (walk rooted) (u, bs) (Split (tl r) CHR ''/''))"
          using IH [OF lt, of bs u] p ru snoc by simp
        finally show ?thesis unfolding f using snoc by (simp add: walk_dotdot)
      next
        case Nil
        have nl: "\<not> ?d < length ?out" using enc_above_floor [OF p ru] Nil by simp
        show ?thesis
        proof (cases rooted)
          case True
          have "clean_loop rooted rest ?out ?d = clean_loop rooted (tl r) ?out ?d"
            unfolding Cons using dotdot nl True by (simp add: clean_loop.simps)
          also have "\<dots> = enc rooted (foldl (walk rooted) (u, cs) (Split (tl r) CHR ''/''))"
            using IH [OF lt, of cs u] p ru by simp
          finally show ?thesis unfolding f using Nil True by (simp add: walk_dotdot)
        next
          case False
          have "clean_loop rooted rest ?out ?d
              = clean_loop rooted (tl r) (enc False (Suc u, [])) (floor_of False (Suc u))"
            unfolding Cons floor_climb enc_climb using dotdot nl False Nil
            by (simp add: clean_loop.simps Let_def)
          also have "\<dots> = enc rooted (foldl (walk rooted) (Suc u, []) (Split (tl r) CHR ''/''))"
            using IH [OF lt, of "[]" "Suc u"] False by simp
          finally show ?thesis unfolding f using Nil False by (simp add: walk_dotdot)
        qed
      qed
    next
      case name
      let ?n = "c # takeWhile (\<lambda>x. x \<noteq> CHR ''/'') r"
      let ?r = "dropWhile (\<lambda>x. x \<noteq> CHR ''/'') r"
      have pn: "proper ?n" using name by (rule name_proper)
      have lt: "length ?r < length rest"
        unfolding Cons using length_dropWhile_le [of "\<lambda>x. x \<noteq> CHR ''/''" r] by simp
      have "clean_loop rooted rest ?out ?d = clean_loop rooted ?r (enc rooted (u, cs @ [?n])) ?d"
        unfolding Cons enc_push [OF p] using name
        by (simp add: clean_loop.simps Let_def)
      also have "\<dots> = enc rooted (foldl (walk rooted) (u, cs @ [?n]) (Split ?r CHR ''/''))"
        using IH [OF lt, of "cs @ [?n]" u] p pn ru by simp
      finally show ?thesis unfolding Cons fold_name [OF name(1)] walk_proper [OF pn] .
    qed
  qed
qed

text \<open>Places stay normal, so \<open>Clean\<close> renders the place that a path denotes.\<close>

lemma walk_normal:
  assumes "normal b st" "CHR ''/'' \<notin> set c"
  shows "normal b (walk b st c)"
proof (cases st)
  case (Pair u cs)
  show ?thesis
  proof (cases "c = [] \<or> c = ''.''")
    case True
    then show ?thesis using assms(1) by auto
  next
    case False
    show ?thesis
    proof (cases "c = ''..''")
      case True
      then show ?thesis using assms(1) Pair
        by (auto simp: walk_dotdot normal_def dest: in_set_butlastD)
    next
      case n: False
      with False assms(2) have "proper c" by (simp add: proper_def)
      then show ?thesis using assms(1) Pair by (simp add: walk_proper normal_def)
    qed
  qed
qed

lemma foldl_normal:
  "normal b st \<Longrightarrow> \<forall>c \<in> set xs. CHR ''/'' \<notin> set c \<Longrightarrow> normal b (foldl (walk b) st xs)"
  by (induction xs arbitrary: st) (simp_all add: walk_normal)

lemma resolve_normal: "normal (fst (resolve x)) (snd (resolve x))"
proof -
  have "normal (IsAbs x) (0, [])" by (simp add: normal_def)
  moreover have "\<forall>c \<in> set (Split x CHR ''/''). CHR ''/'' \<notin> set c"
    using Split_parts_no_sep by blast
  ultimately show ?thesis unfolding resolve_def fst_conv snd_conv by (rule foldl_normal)
qed

lemma Clean_resolve: "Clean x = render (resolve x)"
proof (cases x)
  case Nil
  then show ?thesis by (simp add: Clean_def render_def resolve_def IsAbs_def enc_def)
next
  case (Cons c t)
  show ?thesis
  proof (cases "c = CHR ''/''")
    case True
    have a: "IsAbs x" using Cons True by (simp add: IsAbs_def)
    have e: "enc True (0, []) = ''/''" "floor_of True 0 = 1" by (simp_all add: enc_def floor_of_def)
    have "clean_loop True t ''/'' 1 = enc True (foldl (walk True) (0, []) (Split t CHR ''/''))"
      using clean_loop_walk [of "[]" True 0 t] unfolding e by simp
    moreover have "foldl (walk True) (0, []) (Split x CHR ''/'')
        = foldl (walk True) (0, []) (Split t CHR ''/'')"
      unfolding Cons True by (rule fold_slash)
    ultimately show ?thesis using a Cons True
      by (simp add: Clean_def render_def resolve_def Let_def)
  next
    case False
    have a: "\<not> IsAbs x" using Cons False by (simp add: IsAbs_def)
    have e: "enc False (0, []) = []" "floor_of False 0 = 0" by (simp_all add: enc_def floor_of_def)
    have "clean_loop False x [] 0 = enc False (foldl (walk False) (0, []) (Split x CHR ''/''))"
      using clean_loop_walk [of "[]" False 0 x] unfolding e by simp
    then show ?thesis using a Cons False
      by (simp add: Clean_def render_def resolve_def Let_def)
  qed
qed

lemma foldl_walk_proper:
  "\<forall>c \<in> set ds. proper c \<Longrightarrow> foldl (walk b) (u, cs) ds = (u, cs @ ds)"
  by (induction ds arbitrary: cs) (simp_all add: walk_proper)

lemma foldl_walk_updirs:
  "foldl (walk False) (k, []) (replicate u ''..'') = (k + u, [])"
  by (induction u arbitrary: k) (simp_all add: walk_dotdot)

lemma proper_no_slash: "\<forall>c \<in> set cs. proper c \<Longrightarrow> \<forall>c \<in> set cs. CHR ''/'' \<notin> set c"
  by (simp add: proper_def)

text \<open>The components of a rendered place.\<close>

lemma Split_render_rooted:
  assumes "\<forall>c \<in> set cs. proper c"
  shows "Split (render (True, u, cs)) CHR ''/'' = [] # (if cs = [] then [[]] else cs)"
proof -
  have "Split (Join cs ''/'') CHR ''/'' = (if cs = [] then [[]] else cs)"
    using Split_Join [of cs "CHR ''/''"] proper_no_slash [OF assms] by simp
  then show ?thesis by (simp add: render_def enc_def)
qed

lemma Split_render_relative:
  assumes "\<forall>c \<in> set cs. proper c"
  shows "Split (render (False, u, cs)) CHR ''/''
     = (if u = 0 \<and> cs = [] then [''.''] else replicate u ''..'' @ cs)"
proof (cases "u = 0 \<and> cs = []")
  case True
  then show ?thesis by (simp add: render_def enc_def)
next
  case False
  let ?L = "replicate u ''..'' @ cs"
  have ne: "?L \<noteq> []" using False by auto
  have ns: "\<forall>c \<in> set ?L. CHR ''/'' \<notin> set c" using proper_no_slash [OF assms] by auto
  have nn: "\<forall>c \<in> set ?L. c \<noteq> []" using proper_nonempty [OF assms] by auto
  have "Join ?L ''/'' \<noteq> []" using Join_Nil_iff [OF nn, of "''/''"] ne by simp
  moreover have "Split (Join ?L ''/'') CHR ''/'' = ?L" using Split_Join [OF ne ns] by simp
  ultimately show ?thesis using False by (simp add: render_def enc_def)
qed

lemma IsAbs_render:
  assumes "\<forall>c \<in> set cs. proper c"
  shows "IsAbs (render (a, u, cs)) = a"
proof (cases a)
  case True
  then show ?thesis by (simp add: render_def enc_def IsAbs_def)
next
  case False
  have "hd (Split (render (False, u, cs)) CHR ''/'') \<noteq> []"
    unfolding Split_render_relative [OF assms] using assms
    by (cases cs; cases u) (auto simp: proper_def)
  moreover have "IsAbs s \<Longrightarrow> hd (Split s CHR ''/'') = []" for s
    by (cases s) (auto simp: IsAbs_def)
  ultimately show ?thesis using False by auto
qed

lemma resolve_render:
  assumes "normal a (u, cs)"
  shows "resolve (render (a, u, cs)) = (a, u, cs)"
proof -
  have p: "\<forall>c \<in> set cs. proper c" using assms by (simp add: normal_def)
  show ?thesis
  proof (cases a)
    case True
    then have u: "u = 0" using assms by (simp add: normal_def)
    show ?thesis unfolding resolve_def IsAbs_render [OF p]
      using True u Split_render_rooted [OF p, of u] foldl_walk_proper [OF p, of True 0 "[]"]
      by auto
  next
    case False
    show ?thesis unfolding resolve_def IsAbs_render [OF p]
      using False Split_render_relative [OF p, of u] foldl_walk_proper [OF p, of False u "[]"]
        foldl_walk_updirs [of 0 u]
      by auto
  qed
qed

lemma resolve_Clean: "resolve (Clean x) = resolve x"
proof -
  obtain a u cs where r: "resolve x = (a, u, cs)" by (cases "resolve x") auto
  with resolve_normal [of x] have "normal a (u, cs)" by simp
  from resolve_render [OF this] show ?thesis unfolding Clean_resolve r .
qed

text \<open>
  The guard of \<open>pluginPath\<close> on two cleaned paths: between rendered places, equality
  or a prefix up to a separator is containment, unless the shorter one only climbs.
\<close>

lemma HasPrefix_append: "HasPrefix s p \<longleftrightarrow> (\<exists>r. s = p @ r)"
  by (induction s p rule: HasPrefix.induct) auto

lemma render_not_Nil: "render t \<noteq> []"
  by (cases t) (simp add: render_def)

lemma IsAbs_append: "x \<noteq> [] \<Longrightarrow> IsAbs (x @ y) = IsAbs x"
  by (cases x) (simp_all add: IsAbs_def)

lemma replicate_cancel:
  "replicate u x @ A = replicate v x @ B \<Longrightarrow> A \<noteq> [] \<Longrightarrow> hd A \<noteq> x \<Longrightarrow> x \<notin> set B \<Longrightarrow>
   u = v \<and> A = B"
proof (induction u arbitrary: v)
  case 0
  then show ?case by (cases v) auto
next
  case (Suc u)
  show ?case
  proof (cases v)
    case 0
    with Suc.prems show ?thesis by auto
  next
    case (Suc v')
    with Suc.prems Suc.IH [of v'] show ?thesis by simp
  qed
qed

lemma guard_confines:
  assumes n1: "normal a (u, cs)" and n2: "normal b (v, ds)"
    and g: "render (b, v, ds) = render (a, u, cs) \<or>
            HasPrefix (render (b, v, ds)) (render (a, u, cs) @ ''/'')"
    and h: "\<not> (0 < u \<and> cs = [])"
  shows "a = b \<and> u = v \<and> prefix cs ds"
  using g
proof
  assume "render (b, v, ds) = render (a, u, cs)"
  then have "resolve (render (b, v, ds)) = resolve (render (a, u, cs))" by simp
  then show ?thesis unfolding resolve_render [OF n1] resolve_render [OF n2] by simp
next
  assume "HasPrefix (render (b, v, ds)) (render (a, u, cs) @ ''/'')"
  then obtain rest where e: "render (b, v, ds) = render (a, u, cs) @ CHR ''/'' # rest"
    by (auto simp: HasPrefix_append)
  have pc: "\<forall>c \<in> set cs. proper c" and pd: "\<forall>c \<in> set ds. proper c"
    using n1 n2 by (simp_all add: normal_def)
  have "IsAbs (render (b, v, ds)) = IsAbs (render (a, u, cs))"
    unfolding e by (rule IsAbs_append [OF render_not_Nil])
  then have ab: "a = b" unfolding IsAbs_render [OF pc] IsAbs_render [OF pd] by simp
  have S: "Split (render (b, v, ds)) CHR ''/''
      = Split (render (a, u, cs)) CHR ''/'' @ Split rest CHR ''/''"
    unfolding e by (rule Split_append)
  obtain y ys where rs: "Split rest CHR ''/'' = y # ys"
    using Split_not_Nil [of rest "CHR ''/''"] by (cases "Split rest CHR ''/''") auto
  show ?thesis
  proof (cases a)
    case True
    then have uv: "u = 0" "v = 0" using n1 n2 ab by (simp_all add: normal_def)
    have "Split (render (True, v, ds)) CHR ''/''
        = Split (render (True, u, cs)) CHR ''/'' @ y # ys"
      using S True ab rs by simp
    then have "(if ds = [] then [[]] else ds) = (if cs = [] then [[]] else cs) @ y # ys"
      unfolding Split_render_rooted [OF pc] Split_render_rooted [OF pd] by simp
    then have "prefix cs ds"
      by (cases "cs = []"; cases "ds = []") (auto simp: Cons_eq_append_conv)
    with ab uv show ?thesis by simp
  next
    case False
    have "Split (render (False, v, ds)) CHR ''/''
        = Split (render (False, u, cs)) CHR ''/'' @ y # ys"
      using S False ab rs by simp
    then have E: "(if v = 0 \<and> ds = [] then [''.''] else replicate v ''..'' @ ds)
        = (if u = 0 \<and> cs = [] then [''.''] else replicate u ''..'' @ cs) @ y # ys"
      unfolding Split_render_relative [OF pc] Split_render_relative [OF pd] .
    have nd: "''..'' \<notin> set ds" using pd by (auto simp: proper_def)
    show ?thesis
    proof (cases "cs = []")
      case True
      with h have u: "u = 0" by simp
      have "v = 0"
      proof (rule ccontr)
        assume "v \<noteq> 0"
        then obtain v' where "v = Suc v'" by (cases v) auto
        with E True u show False by simp
      qed
      with ab u True show ?thesis by simp
    next
      case c: False
      have 1: "replicate v ''..'' @ ds = replicate u ''..'' @ (cs @ y # ys)"
      proof (cases "v = 0 \<and> ds = []")
        case True
        with E c have "[''.''] = replicate u ''..'' @ cs @ y # ys" by simp
        then have "length [''.''] = length (replicate u ''..'' @ cs @ y # ys)" by simp
        with c show ?thesis by (cases cs) auto
      next
        case False
        with E c show ?thesis by simp
      qed
      have "hd (cs @ y # ys) \<noteq> ''..''" using c pc by (cases cs) (auto simp: proper_def)
      with replicate_cancel [OF 1 [symmetric] _ _ nd] have "u = v \<and> cs @ y # ys = ds" by simp
      with ab show ?thesis by auto
    qed
  qed
qed

lemma pluginPath_confined:
  assumes "pluginPath root R = Inr p" "\<not> climbs_only root"
  shows "lies_under root p"
proof -
  define F where "F = filepath_Join [root, String R]"
  from assms(1) have p: "p = Clean F"
    and g: "p = Clean root \<or> HasPrefix p (Clean root @ ''/'')"
    by (auto simp: pluginPath_def Let_def F_def PathSeparator_def split: if_splits)
  obtain a u cs where r: "resolve root = (a, u, cs)" by (cases "resolve root") auto
  obtain b v ds where f: "resolve F = (b, v, ds)" by (cases "resolve F") auto
  have n1: "normal a (u, cs)" using resolve_normal [of root] r by simp
  have n2: "normal b (v, ds)" using resolve_normal [of F] f by simp
  have h: "\<not> (0 < u \<and> cs = [])" using assms(2) r by (simp add: climbs_only_def)
  have rp: "resolve p = (b, v, ds)" unfolding p resolve_Clean f ..
  from g have "render (b, v, ds) = render (a, u, cs) \<or>
      HasPrefix (render (b, v, ds)) (render (a, u, cs) @ ''/'')"
    unfolding p Clean_resolve r f .
  from guard_confines [OF n1 n2 this h] show ?thesis
    by (simp add: lies_under_def r rp)
qed

lemma absolute_root_descends: "IsAbs root \<Longrightarrow> \<not> climbs_only root"
  using resolve_normal [of root] by (auto simp: climbs_only_def normal_def resolve_def)

text \<open>
  C1 (as the code has it).  The comparison is against the cleaned root
  \<open>Clean root\<close>, not the root as configured.  \<open>pluginPath\<close> fails with the
  absolute-path violation when the reference string is absolute, and with the
  path-traversal violation when the cleaned join is neither the cleaned root nor
  prefixed by the cleaned root followed by the separator.  When the root does not only
  climb (every absolute root, and every relative root that names a directory), a path
  it returns lies under the root.  When it fails, \<open>Store\<close> and \<open>Delete\<close> return the
  same error having issued no filesystem operation.
\<close>

theorem pluginPath_guard:
  "(IsAbs (String R) \<longrightarrow> pluginPath root R = Inl (AbsolutePathViolation (String R))) \<and>
   (\<not> IsAbs (String R) \<and>
    Clean (filepath_Join [root, String R]) \<noteq> Clean root \<and>
    \<not> HasPrefix (Clean (filepath_Join [root, String R])) (Clean root @ PathSeparator)
      \<longrightarrow> pluginPath root R = Inl (PathTraversalViolation (String R))) \<and>
   (\<forall>p. pluginPath root R = Inr p \<and> \<not> climbs_only root \<longrightarrow> lies_under root p) \<and>
   (\<forall>e plugin fails. reference plugin = R \<and> pluginPath root R = Inl e \<longrightarrow>
      Store fails root plugin = (Inl e, [])) \<and>
   (\<forall>e fails. pluginPath root R = Inl e \<longrightarrow> Delete fails root R = (Some e, []))"
proof -
  have 1: "IsAbs (String R) \<longrightarrow> pluginPath root R = Inl (AbsolutePathViolation (String R))"
    by (simp add: pluginPath_def Let_def)
  have 2: "\<not> IsAbs (String R) \<and>
      Clean (filepath_Join [root, String R]) \<noteq> Clean root \<and>
      \<not> HasPrefix (Clean (filepath_Join [root, String R])) (Clean root @ PathSeparator)
        \<longrightarrow> pluginPath root R = Inl (PathTraversalViolation (String R))"
    by (simp add: pluginPath_def Let_def)
  have 3: "\<forall>p. pluginPath root R = Inr p \<and> \<not> climbs_only root \<longrightarrow> lies_under root p"
    using pluginPath_confined by blast
  have 4: "\<forall>e plugin fails. reference plugin = R \<and> pluginPath root R = Inl e \<longrightarrow>
      Store fails root plugin = (Inl e, [])"
    using Store_after_violation by blast
  have 5: "\<forall>e fails. pluginPath root R = Inl e \<longrightarrow> Delete fails root R = (Some e, [])"
    using Delete_after_violation by blast
  from 1 2 3 4 5 show ?thesis by blast
qed

theorem pluginPath_guard_witness:
  "pluginPath ''/home/u/.reglet/plugins'' (EmbeddedReference ''/etc/passwd'')
     = Inl (AbsolutePathViolation ''/etc/passwd'') \<and>
   pluginPath ''/home/u/.reglet/plugins''
     (NewPluginReference ''ghcr.io'' ''..'' ''..'' ''..'' ''../../etc'')
     = Inl (PathTraversalViolation ''ghcr.io/../../..:../../etc'') \<and>
   Store (\<lambda>op. False) ''/home/u/.reglet/plugins''
     \<lparr>reference = NewPluginReference ''ghcr.io'' ''..'' ''..'' ''..'' ''../../etc'',
      digest = \<lparr>algorithm = ''sha256'', digest_value = ''abc''\<rparr>,
      metadata = \<lparr>meta_name = ''etc'', meta_version = ''1'', meta_description = [],
                  meta_capabilities = []\<rparr>\<rparr>
     = (Inl (PathTraversalViolation ''ghcr.io/../../..:../../etc''), []) \<and>
   Delete (\<lambda>op. False) ''/home/u/.reglet/plugins''
     (NewPluginReference ''ghcr.io'' ''..'' ''..'' ''..'' ''../../etc'')
     = (Some (PathTraversalViolation ''ghcr.io/../../..:../../etc''), []) \<and>
   pluginPath ''/home/u/.reglet/plugins/'' (NewPluginReference ''ghcr.io'' ''o'' ''r'' ''file'' ''1.0'')
     = Inr ''/home/u/.reglet/plugins/ghcr.io/o/r/file:1.0'' \<and>
   lies_under ''/home/u/.reglet/plugins/'' ''/home/u/.reglet/plugins/ghcr.io/o/r/file:1.0'' \<and>
   pluginPath ''../cache'' (EmbeddedReference ''file'') = Inr ''../cache/file'' \<and>
   lies_under ''../cache'' ''../cache/file''"
proof -
  let ?root = "''/home/u/.reglet/plugins''"
  let ?A = "EmbeddedReference ''/etc/passwd''"
  let ?R = "NewPluginReference ''ghcr.io'' ''..'' ''..'' ''..'' ''../../etc''"
  let ?G = "NewPluginReference ''ghcr.io'' ''o'' ''r'' ''file'' ''1.0''"
  let ?E = "EmbeddedReference ''file''"
  let ?P = "\<lparr>reference = ?R,
      digest = \<lparr>algorithm = ''sha256'', digest_value = ''abc''\<rparr>,
      metadata = \<lparr>meta_name = ''etc'', meta_version = ''1'', meta_description = [],
                  meta_capabilities = []\<rparr>\<rparr>"
  have sA: "String ?A = ''/etc/passwd''" by code_simp
  have aA: "IsAbs (String ?A)" by code_simp
  from pluginPath_guard [of ?A ?root] aA
  have 1: "pluginPath ?root ?A = Inl (AbsolutePathViolation (String ?A))" by blast
  have s: "String ?R = ''ghcr.io/../../..:../../etc''" by code_simp
  have a: "\<not> IsAbs (String ?R)" by code_simp
  have b: "Clean (filepath_Join [?root, String ?R]) \<noteq> Clean ?root" by code_simp
  have c: "\<not> HasPrefix (Clean (filepath_Join [?root, String ?R])) (Clean ?root @ PathSeparator)"
    by code_simp
  from pluginPath_guard [of ?R ?root] a b c
  have 2: "pluginPath ?root ?R = Inl (PathTraversalViolation (String ?R))" by blast
  have ref: "reference ?P = ?R" by simp
  from pluginPath_guard [of ?R ?root] 2 ref
  have 3: "Store (\<lambda>op. False) ?root ?P = (Inl (PathTraversalViolation (String ?R)), [])"
    by blast
  from pluginPath_guard [of ?R ?root] 2
  have 4: "Delete (\<lambda>op. False) ?root ?R = (Some (PathTraversalViolation (String ?R)), [])"
    by blast
  have g: "pluginPath ''/home/u/.reglet/plugins/'' ?G
      = Inr ''/home/u/.reglet/plugins/ghcr.io/o/r/file:1.0''"
    by code_simp
  have ng: "\<not> climbs_only ''/home/u/.reglet/plugins/''" by code_simp
  from pluginPath_guard [of ?G "''/home/u/.reglet/plugins/''"] g ng
  have 5: "lies_under ''/home/u/.reglet/plugins/'' ''/home/u/.reglet/plugins/ghcr.io/o/r/file:1.0''"
    by blast
  have e: "pluginPath ''../cache'' ?E = Inr ''../cache/file''" by code_simp
  have ne: "\<not> climbs_only ''../cache''" by code_simp
  from pluginPath_guard [of ?E "''../cache''"] e ne
  have 6: "lies_under ''../cache'' ''../cache/file''" by blast
  show ?thesis using 1 2 3 4 5 6 g e unfolding s sA by blast
qed

text \<open>
  C1 as stated fails when the configured root is not in cleaned form: with root
  \<open>/var/plugins/\<close> and the embedded reference \<open>file\<close> the cleaned join
  \<open>/var/plugins/file\<close> is neither equal to the root nor prefixed by the root followed
  by the separator (\<open>/var/plugins//\<close>), and \<open>pluginPath\<close> returns it without error.
\<close>

theorem pluginPath_unclean_root_counterexample:
  "\<not> IsAbs (String (EmbeddedReference ''file'')) \<and>
   Clean (filepath_Join [''/var/plugins/'', String (EmbeddedReference ''file'')])
     \<noteq> ''/var/plugins/'' \<and>
   \<not> HasPrefix (Clean (filepath_Join [''/var/plugins/'', String (EmbeddedReference ''file'')]))
         (''/var/plugins/'' @ PathSeparator) \<and>
   pluginPath ''/var/plugins/'' (EmbeddedReference ''file'') = Inr ''/var/plugins/file''"
  by code_simp

text \<open>
  The condition on the root cannot be dropped: the root \<open>..\<close> only climbs, and there
  the prefix test lets through the reference named \<open>../../malicious\<close>, whose path
  \<open>../../../malicious\<close> is two directories above the root.
\<close>

lemma pluginPath_climbing_root:
  "climbs_only ''..'' \<and>
   pluginPath ''..'' (NewPluginReference [] [] [] ''../../malicious'' ''1.0.0'')
     = Inr ''../../../malicious'' \<and>
   \<not> lies_under ''..'' ''../../../malicious''"
  by code_simp

subsection \<open>Retries\<close>

lemma transport_calls_append [simp]:
  "transport_calls (xs @ ys) = transport_calls xs + transport_calls ys"
  by (induction xs rule: transport_calls.induct) auto

lemma transport_calls_retry [simp]:
  "transport_calls (if c then [OnRetryCall x y] else []) = 0"
  by simp

lemma isRetryableStatus_iff: "isRetryableStatus s = retry_trigger (Response s)"
  by (simp add: isRetryableStatus_def)

text \<open>The loop, one iteration unfolded; the test for other 4xx codes never fires.\<close>

lemma retry_loop_exit:
  "\<not> a \<le> m \<Longrightarrow> retry_loop env m a le lr tr =
     (case lr of Some s \<Rightarrow> (RespResult s, tr)
      | None \<Rightarrow> (case le of Some e \<Rightarrow> (ErrResult e, tr) | None \<Rightarrow> (NilResult, tr)))"
  by (simp add: retry_loop.simps [of env m a])

lemma retry_loop_body_fail:
  "a \<le> m \<Longrightarrow> env a = GetBodyFailed \<Longrightarrow>
   retry_loop env m a le lr tr = (ErrResult GetBodyErr, tr)"
  by (simp add: retry_loop.simps [of env m a])

lemma retry_loop_error_stop:
  "a \<le> m \<Longrightarrow> env a = TransportError ssrf \<Longrightarrow> ssrf \<or> a = m \<Longrightarrow>
   retry_loop env m a le lr tr = (ErrResult (TransportErr ssrf), tr @ [TransportCall a])"
  by (auto simp: retry_loop.simps [of env m a] Let_def)

lemma retry_loop_error_retry:
  "a < m \<Longrightarrow> env a = TransportError False \<Longrightarrow>
   retry_loop env m a le lr tr =
     retry_loop env m (a + 1) (Some (TransportErr False)) lr
       (tr @ [TransportCall a, OnRetryCall (a + 1) 0])"
  by (simp add: retry_loop.simps [of env m a] Let_def)

lemma retry_loop_response_stop:
  "a \<le> m \<Longrightarrow> env a = Response s \<Longrightarrow> \<not> retry_trigger (Response s) \<Longrightarrow>
   retry_loop env m a le lr tr = (RespResult s, tr @ [TransportCall a])"
  by (simp add: retry_loop.simps [of env m a] Let_def isRetryableStatus_def)

lemma retry_loop_response_retry:
  "a \<le> m \<Longrightarrow> env a = Response s \<Longrightarrow> retry_trigger (Response s) \<Longrightarrow>
   retry_loop env m a le lr tr =
     retry_loop env m (a + 1) None (Some s)
       (tr @ TransportCall a # (if a < m then [OnRetryCall (a + 1) s] else []))"
  by (auto simp: retry_loop.simps [of env m a] Let_def isRetryableStatus_def)

lemma retry_loop_calls:
  "int (transport_calls (snd (retry_loop env m a le lr tr)))
     \<le> int (transport_calls tr) + max 0 (m + 1 - a)"
proof (induction "nat (m + 1 - a)" arbitrary: a le lr tr)
  case 0
  then have "\<not> a \<le> m" by simp
  then show ?case by (simp add: retry_loop_exit split: option.splits)
next
  case (Suc n)
  then have le: "a \<le> m" and n: "n = nat (m + 1 - (a + 1))" by auto
  show ?case
  proof (cases "env a")
    case GetBodyFailed
    with le show ?thesis by (simp add: retry_loop_body_fail)
  next
    case (TransportError ssrf)
    show ?thesis
    proof (cases "ssrf \<or> a = m")
      case True
      with le TransportError show ?thesis by (simp add: retry_loop_error_stop)
    next
      case False
      with le TransportError have "a < m" "env a = TransportError False" by auto
      then show ?thesis using Suc.hyps(1) [OF n, of "Some (TransportErr False)" lr
          "tr @ [TransportCall a, OnRetryCall (a + 1) 0]"]
        by (simp add: retry_loop_error_retry)
    qed
  next
    case (Response s)
    show ?thesis
    proof (cases "retry_trigger (Response s)")
      case False
      with le Response show ?thesis by (simp add: retry_loop_response_stop)
    next
      case True
      show ?thesis
        using Suc.hyps(1) [OF n, of None "Some s"
          "tr @ TransportCall a # (if a < m then [OnRetryCall (a + 1) s] else [])"] le
        by (simp add: retry_loop_response_retry [where env = env and a = a, OF le Response True])
    qed
  qed
qed

text \<open>Every attempt that is followed by another call met a retry trigger.\<close>

lemma retry_loop_only_on_trigger:
  "int (transport_calls tr) = a \<Longrightarrow> a \<le> i \<Longrightarrow>
   i + 1 < int (transport_calls (snd (retry_loop env m a le lr tr))) \<Longrightarrow>
   retry_trigger (env i)"
proof (induction "nat (m + 1 - a)" arbitrary: a le lr tr)
  case 0
  then have "\<not> a \<le> m" by simp
  with 0 show ?case by (simp add: retry_loop_exit split: option.splits)
next
  case (Suc n)
  then have le: "a \<le> m" and n: "n = nat (m + 1 - (a + 1))" by auto
  show ?case
  proof (cases "env a")
    case GetBodyFailed
    with le Suc.prems show ?thesis by (simp add: retry_loop_body_fail)
  next
    case (TransportError ssrf)
    show ?thesis
    proof (cases "ssrf \<or> a = m")
      case True
      with le TransportError Suc.prems show ?thesis by (simp add: retry_loop_error_stop)
    next
      case False
      with le TransportError have lt: "a < m" and e: "env a = TransportError False" by auto
      show ?thesis
      proof (cases "i = a")
        case True
        with e show ?thesis by simp
      next
        case False
        with Suc.prems have "a + 1 \<le> i" by simp
        moreover have "int (transport_calls (tr @ [TransportCall a, OnRetryCall (a + 1) 0])) = a + 1"
          using Suc.prems by simp
        ultimately show ?thesis
          using Suc.hyps(1) [OF n, of "tr @ [TransportCall a, OnRetryCall (a + 1) 0]"
              "Some (TransportErr False)" lr] Suc.prems(3)
          by (simp add: retry_loop_error_retry [where env = env and a = a, OF lt e])
      qed
    qed
  next
    case (Response s)
    show ?thesis
    proof (cases "retry_trigger (Response s)")
      case False
      with le Response Suc.prems show ?thesis by (simp add: retry_loop_response_stop)
    next
      case True
      show ?thesis
      proof (cases "i = a")
        case True
        with Response \<open>retry_trigger (Response s)\<close> show ?thesis by simp
      next
        case False
        let ?tr = "tr @ TransportCall a # (if a < m then [OnRetryCall (a + 1) s] else [])"
        from False Suc.prems have "a + 1 \<le> i" by simp
        moreover have "int (transport_calls ?tr) = a + 1"
          using Suc.prems by simp
        ultimately show ?thesis
          using Suc.hyps(1) [OF n, of ?tr None "Some s"] Suc.prems(3)
          by (simp add: retry_loop_response_retry [where env = env and a = a, OF le Response True])
      qed
    qed
  qed
qed

text \<open>The first response that is no trigger is returned, and no call follows it.\<close>

lemma retry_loop_first_final:
  "a \<le> i \<Longrightarrow> i \<le> m \<Longrightarrow> (\<forall>j. a \<le> j \<and> j < i \<longrightarrow> retry_trigger (env j)) \<Longrightarrow>
   env i = Response s \<Longrightarrow> \<not> retry_trigger (Response s) \<Longrightarrow>
   fst (retry_loop env m a le lr tr) = RespResult s \<and>
   int (transport_calls (snd (retry_loop env m a le lr tr)))
     = int (transport_calls tr) + (i - a) + 1"
proof (induction "nat (i - a)" arbitrary: a le lr tr)
  case 0
  then have "i = a" by simp
  with 0 show ?case by (simp add: retry_loop_response_stop)
next
  case (Suc n)
  then have lt: "a < i" and n: "n = nat (i - (a + 1))" by auto
  with Suc.prems have tr: "retry_trigger (env a)" and am: "a < m" "a \<le> m" by auto
  have rest: "\<forall>j. a + 1 \<le> j \<and> j < i \<longrightarrow> retry_trigger (env j)"
    using Suc.prems(3) by auto
  from lt have ai: "a + 1 \<le> i" by simp
  show ?case
  proof (cases "env a")
    case GetBodyFailed
    with tr show ?thesis by simp
  next
    case (TransportError ssrf)
    with tr have e: "env a = TransportError False" by simp
    show ?thesis
      using Suc.hyps(1) [OF n ai Suc.prems(2) rest Suc.prems(4,5),
          of "Some (TransportErr False)" lr "tr @ [TransportCall a, OnRetryCall (a + 1) 0]"]
      by (simp add: retry_loop_error_retry [where env = env and a = a, OF am(1) e])
  next
    case (Response s')
    with tr have t: "retry_trigger (Response s')" by simp
    show ?thesis
      using Suc.hyps(1) [OF n ai Suc.prems(2) rest Suc.prems(4,5),
          of None "Some s'" "tr @ TransportCall a # (if a < m then [OnRetryCall (a + 1) s'] else [])"]
        am
      by (simp add: retry_loop_response_retry [where env = env and a = a, OF am(2) Response t])
  qed
qed

text \<open>
  C3 (as the code has it).  With \<open>m\<close> the effective maximum (\<open>MaxRetries\<close>, or 3
  when \<open>MaxRetries\<close> is zero), \<open>RoundTrip\<close> calls the underlying transport at
  most \<open>m + 1\<close> times (never, when \<open>m\<close> is negative); an attempt is followed by
  another call only if it met a transport error that is not SSRF-blocked or a response
  with status 429, 502, 503 or 504, so a response with any other 4xx status is never
  retried; and the first response whose status is none of these four, met within the
  first \<open>m + 1\<close> attempts, is returned with no further call.
\<close>

theorem RoundTrip_attempts:
  "int (transport_calls (snd (RoundTrip t env))) \<le> max 0 (maxRetries_of t + 1) \<and>
   (\<forall>i. 0 \<le> i \<and> i + 1 < int (transport_calls (snd (RoundTrip t env)))
        \<longrightarrow> retry_trigger (env i)) \<and>
   (\<forall>i s. 0 \<le> i \<and> env i = Response s \<and> 400 \<le> s \<and> s < 500 \<and> s \<noteq> 429
        \<longrightarrow> int (transport_calls (snd (RoundTrip t env))) \<le> i + 1) \<and>
   (\<forall>i s. 0 \<le> i \<and> i \<le> maxRetries_of t \<and>
          (\<forall>j. 0 \<le> j \<and> j < i \<longrightarrow> retry_trigger (env j)) \<and>
          env i = Response s \<and> \<not> retry_trigger (Response s)
        \<longrightarrow> fst (RoundTrip t env) = RespResult s \<and>
            int (transport_calls (snd (RoundTrip t env))) = i + 1)"
proof -
  let ?n = "int (transport_calls (snd (RoundTrip t env)))"
  have bound: "?n \<le> max 0 (maxRetries_of t + 1)"
    using retry_loop_calls [of env "maxRetries_of t" 0 None None "[]"]
    by (simp add: RoundTrip_def)
  have only: "retry_trigger (env i)" if "0 \<le> i" "i + 1 < ?n" for i
    using retry_loop_only_on_trigger [of "[]" 0 i env "maxRetries_of t" None None] that
    by (simp add: RoundTrip_def)
  have other4xx: "?n \<le> i + 1"
    if "0 \<le> i" "env i = Response s" "400 \<le> s" "s < 500" "s \<noteq> 429" for i s
  proof (rule ccontr)
    assume "\<not> ?n \<le> i + 1"
    with that(1) have "retry_trigger (env i)" by (intro only) auto
    with that show False by simp
  qed
  have first: "fst (RoundTrip t env) = RespResult s \<and> ?n = i + 1"
    if "0 \<le> i" "i \<le> maxRetries_of t" "\<forall>j. 0 \<le> j \<and> j < i \<longrightarrow> retry_trigger (env j)"
       "env i = Response s" "\<not> retry_trigger (Response s)" for i s
    using retry_loop_first_final [of 0 i "maxRetries_of t" env s None None "[]"] that
    by (simp add: RoundTrip_def)
  show ?thesis using bound only other4xx first by blast
qed

theorem RoundTrip_attempts_witness:
  "fst (RoundTrip \<lparr>MaxRetries = 3\<rparr> (\<lambda>i. if i = 0 then Response 503 else Response 200))
     = RespResult 200 \<and>
   transport_calls
     (snd (RoundTrip \<lparr>MaxRetries = 3\<rparr> (\<lambda>i. if i = 0 then Response 503 else Response 200)))
     = 2 \<and>
   retry_trigger (Response 503)"
proof -
  let ?t = "\<lparr>MaxRetries = 3\<rparr>"
  let ?env = "\<lambda>i::int. if i = 0 then Response 503 else Response 200"
  have m: "maxRetries_of ?t = 3" by (simp add: maxRetries_of_def)
  have pre: "\<forall>j. 0 \<le> j \<and> j < (1::int) \<longrightarrow> retry_trigger (?env j)" by auto
  have "(0::int) \<le> 1 \<and> 1 \<le> maxRetries_of ?t \<and>
        (\<forall>j. 0 \<le> j \<and> j < (1::int) \<longrightarrow> retry_trigger (?env j)) \<and>
        ?env 1 = Response 200 \<and> \<not> retry_trigger (Response 200)"
    using m pre by simp
  with RoundTrip_attempts [of ?t ?env]
  have "fst (RoundTrip ?t ?env) = RespResult 200 \<and>
        int (transport_calls (snd (RoundTrip ?t ?env))) = 1 + 1"
    by blast
  then show ?thesis by simp
qed

text \<open>
  C3 as stated fails for \<open>MaxRetries = 0\<close>: the documented default of three retries
  applies, and against a transport that always answers 503 there are four calls, more
  than \<open>MaxRetries + 1 = 1\<close>.
\<close>

theorem RoundTrip_zero_MaxRetries_counterexample:
  "transport_calls (snd (RoundTrip \<lparr>MaxRetries = 0\<rparr> (\<lambda>i. Response 503))) = 4 \<and>
   \<not> int (transport_calls (snd (RoundTrip \<lparr>MaxRetries = 0\<rparr> (\<lambda>i. Response 503))))
       \<le> MaxRetries \<lparr>MaxRetries = 0\<rparr> + 1"
  by (simp add: RoundTrip_def maxRetries_of_def retry_loop.simps isRetryableStatus_def)

subsection \<open>Size-limited reading\<close>

lemma take_append_exact: "n = length xs + m \<Longrightarrow> take n (xs @ ys) = xs @ take m ys"
  by simp

lemma Read_exhausted:
  "lr_N l \<le> 0 \<Longrightarrow> LimitedReader_Read l k = ([], Some (SizeLimitExceededError (lr_Limit l) (lr_read l)), l)"
  by (simp add: LimitedReader_Read_def)

lemma Read_over_limit:
  assumes pos: "0 < lr_N l" and k: "0 < k"
      and over: "lr_N l < int (length (concat (pending (lr_R l))))"
      and rd: "LimitedReader_Read l k = (bs, err, l1)"
  shows "bs @ take (nat (lr_N l1)) (concat (pending (lr_R l1)))
           = take (nat (lr_N l)) (concat (pending (lr_R l))) \<and>
         lr_Limit l1 = lr_Limit l \<and>
         (err = None \<and> lr_N l1 < int (length (concat (pending (lr_R l1)))) \<or>
          (\<exists>n. err = Some (SizeLimitExceededError (lr_Limit l) n)) \<and> lr_N l1 = 0)"
proof -
  define k1 where "k1 = (if int k > lr_N l then nat (lr_N l) else k)"
  have k1: "0 < k1" "int k1 \<le> lr_N l" using pos k by (auto simp: k1_def)
  from over pos obtain c cs where p: "pending (lr_R l) = c # cs"
    by (cases "pending (lr_R l)") auto
  show ?thesis
  proof (cases "length c \<le> k1")
    case True
    then have s: "stream_Read (lr_R l) k1 = (c, None, (lr_R l)\<lparr>pending := cs\<rparr>)"
      by (simp add: stream_Read_def p)
    show ?thesis
    proof (cases "lr_N l - int (length c) = 0")
      case False
      with rd s pos have "bs = c" "err = None"
        "l1 = l\<lparr>lr_R := (lr_R l)\<lparr>pending := cs\<rparr>, lr_N := lr_N l - int (length c),
                  lr_read := lr_read l + int (length c)\<rparr>"
        by (auto simp: LimitedReader_Read_def Let_def k1_def [symmetric])
      moreover have "nat (lr_N l) = length c + nat (lr_N l - int (length c))"
        using True k1 by simp
      ultimately show ?thesis using over p True k1
        by (simp add: take_append_exact)
    next
      case z: True
      then have n: "nat (lr_N l) = length c" by simp
      from over p z obtain d ds where cs: "cs = d # ds" by (cases cs) auto
      show ?thesis
      proof (cases "d = []")
        case True
        with rd s pos z cs have "bs = c" "err = None"
          "lr_N l1 = 0" "lr_R l1 = (lr_R l)\<lparr>pending := ds\<rparr>" "lr_Limit l1 = lr_Limit l"
          by (auto simp: LimitedReader_Read_def Let_def k1_def [symmetric] stream_Read_def)
        then show ?thesis using over p z cs True n by simp
      next
        case False
        then have "0 < length (fst (stream_Read ((lr_R l)\<lparr>pending := cs\<rparr>) 1))"
          by (auto simp: stream_Read_def cs)
        with rd s pos z have "bs = c" "\<exists>n. err = Some (SizeLimitExceededError (lr_Limit l) n)"
          "lr_N l1 = 0" "lr_Limit l1 = lr_Limit l"
          by (auto simp: LimitedReader_Read_def Let_def k1_def [symmetric] split: prod.splits)
        then show ?thesis using p n by simp
      qed
    qed
  next
    case False
    then have s: "stream_Read (lr_R l) k1 = (take k1 c, None, (lr_R l)\<lparr>pending := drop k1 c # cs\<rparr>)"
      by (simp add: stream_Read_def p)
    have len: "length (take k1 c) = k1" using False by simp
    show ?thesis
    proof (cases "lr_N l - int k1 = 0")
      case nz: False
      with rd s pos len have "bs = take k1 c" "err = None"
        "l1 = l\<lparr>lr_R := (lr_R l)\<lparr>pending := drop k1 c # cs\<rparr>, lr_N := lr_N l - int k1,
                  lr_read := lr_read l + int k1\<rparr>"
        by (auto simp: LimitedReader_Read_def Let_def k1_def [symmetric])
      moreover have "nat (lr_N l) = k1 + nat (lr_N l - int k1)"
        using k1 by simp
      moreover have "take (k1 + m) (c @ concat cs) = take k1 c @ take m (drop k1 c @ concat cs)" for m
        using False by (simp add: take_add add.commute)
      ultimately show ?thesis using over p False k1
        by simp
    next
      case z: True
      then have n: "nat (lr_N l) = k1" by simp
      have "0 < length (fst (stream_Read ((lr_R l)\<lparr>pending := drop k1 c # cs\<rparr>) 1))"
        using False by (auto simp: stream_Read_def)
      with rd s pos z len have "bs = take k1 c" "\<exists>n. err = Some (SizeLimitExceededError (lr_Limit l) n)"
        "lr_N l1 = 0" "lr_Limit l1 = lr_Limit l"
        by (auto simp: LimitedReader_Read_def Let_def k1_def [symmetric] split: prod.splits)
      then show ?thesis using p n False by simp
    qed
  qed
qed

lemma ReadAll_loop_over_limit:
  "lr_N l < int (length (concat (pending (lr_R l)))) \<Longrightarrow>
   \<exists>n l1. ReadAll_loop extra l b room =
     ((b @ take (nat (lr_N l)) (concat (pending (lr_R l))),
       Some (SizeLimitExceededError (lr_Limit l) n)), l1)"
proof (induction extra l b room rule: ReadAll_loop.induct)
  case (1 extra l b room)
  show ?case
  proof (cases "lr_N l \<le> 0")
    case True
    then show ?thesis
      by (simp add: ReadAll_loop.simps [of extra l b room] Read_exhausted)
  next
    case False
    obtain bs err l1 where rd: "LimitedReader_Read l (Suc room) = (bs, err, l1)"
      by (cases "LimitedReader_Read l (Suc room)") auto
    from False have pos: "0 < lr_N l" by simp
    note R = Read_over_limit [OF pos _ "1.prems" rd, simplified]
    from R consider (go) "err = None" "lr_N l1 < int (length (concat (pending (lr_R l1))))"
      | (stop) n where "err = Some (SizeLimitExceededError (lr_Limit l) n)" "lr_N l1 = 0"
      by auto
    then show ?thesis
    proof cases
      case stop
      with R rd show ?thesis
        by (simp add: ReadAll_loop.simps [of extra l b room])
    next
      case go
      show ?thesis
      proof (cases "length bs = Suc room")
        case True
        from "1.IH"(1) [OF rd [symmetric] refl refl _ True go(2)] go(1)
        obtain n l2 where "ReadAll_loop extra l1 (b @ bs) (extra (length (b @ bs))) =
           (((b @ bs) @ take (nat (lr_N l1)) (concat (pending (lr_R l1))),
             Some (SizeLimitExceededError (lr_Limit l1) n)), l2)" by auto
        with R rd go True show ?thesis
          by (simp add: ReadAll_loop.simps [of extra l b room])
      next
        case False
        from "1.IH"(2) [OF rd [symmetric] refl refl _ False go(2)] go(1)
        obtain n l2 where "ReadAll_loop extra l1 (b @ bs) (room - length bs) =
           (((b @ bs) @ take (nat (lr_N l1)) (concat (pending (lr_R l1))),
             Some (SizeLimitExceededError (lr_Limit l1) n)), l2)" by auto
        with R rd go False show ?thesis
          by (simp add: ReadAll_loop.simps [of extra l b room])
      qed
    qed
  qed
qed

text \<open>
  C6.  A \<open>LimitedReader\<close> constructed with limit 0 answers a \<open>Read\<close> of any size with
  no byte and the \<open>SizeLimitExceededError\<close>, and is left as it was, so every later
  \<open>Read\<close> does the same.  For a stream holding more bytes than the limit, however it
  chunks them, \<open>io.ReadAll\<close> over the limited reader returns the first \<open>limit\<close>
  bytes together with a \<open>SizeLimitExceededError\<close>, and \<open>readHTTPResponse\<close> turns this
  into a response with that body, \<open>BodyTruncated = True\<close> and no error record.
\<close>

theorem LimitedReader_truncates:
  "LimitedReader_Read (NewLimitedReader r 0) k
     = ([], Some (SizeLimitExceededError 0 0), NewLimitedReader r 0) \<and>
   (limit < int (length (concat (pending (resp_Body resp)))) \<longrightarrow>
      (\<exists>n. fst (ReadAll extra (NewLimitedReader (resp_Body resp) limit))
             = (take (nat limit) (concat (pending (resp_Body resp))),
                Some (SizeLimitExceededError limit n))) \<and>
      readHTTPResponse extra resp latency limit
        = \<lparr>StatusCode = resp_StatusCode resp, Headers = resp_Header resp,
           Body = take (nat limit) (concat (pending (resp_Body resp))),
           BodyTruncated = True, LatencyMs = Milliseconds latency, Proto = resp_Proto resp,
           Error = None\<rparr>)"
proof -
  have zero: "LimitedReader_Read (NewLimitedReader r 0) k
     = ([], Some (SizeLimitExceededError 0 0), NewLimitedReader r 0)"
    by (simp add: LimitedReader_Read_def NewLimitedReader_def)
  have over: "(\<exists>n. fst (ReadAll extra (NewLimitedReader (resp_Body resp) limit))
             = (take (nat limit) (concat (pending (resp_Body resp))),
                Some (SizeLimitExceededError limit n))) \<and>
      readHTTPResponse extra resp latency limit
        = \<lparr>StatusCode = resp_StatusCode resp, Headers = resp_Header resp,
           Body = take (nat limit) (concat (pending (resp_Body resp))),
           BodyTruncated = True, LatencyMs = Milliseconds latency, Proto = resp_Proto resp,
           Error = None\<rparr>"
    if h: "limit < int (length (concat (pending (resp_Body resp))))"
  proof -
    let ?l = "NewLimitedReader (resp_Body resp) limit"
    have "lr_N ?l < int (length (concat (pending (lr_R ?l))))"
      using h by (simp add: NewLimitedReader_def)
    from ReadAll_loop_over_limit [OF this, of extra "[]" 511]
    obtain n l1 where "ReadAll extra ?l =
      ((take (nat limit) (concat (pending (resp_Body resp))),
        Some (SizeLimitExceededError limit n)), l1)"
      by (auto simp: ReadAll_def NewLimitedReader_def)
    then show ?thesis by (simp add: readHTTPResponse_def Let_def)
  qed
  show ?thesis using zero over by blast
qed

theorem LimitedReader_truncates_witness:
  "readHTTPResponse (\<lambda>n. n)
     \<lparr>resp_StatusCode = 200, resp_Header = [], resp_Proto = ''HTTP/1.1'',
      resp_Body = \<lparr>pending = [''hel'', ''lo wor'', ''ld''], at_end = EOF\<rparr>\<rparr> 2500000 5
   = \<lparr>StatusCode = 200, Headers = [], Body = ''hello'', BodyTruncated = True,
      LatencyMs = 2, Proto = ''HTTP/1.1'', Error = None\<rparr>"
  using LimitedReader_truncates
    [where limit = 5 and extra = "\<lambda>n. n" and latency = 2500000 and
       resp = "\<lparr>resp_StatusCode = 200, resp_Header = [], resp_Proto = ''HTTP/1.1'',
               resp_Body = \<lparr>pending = [''hel'', ''lo wor'', ''ld''], at_end = EOF\<rparr>\<rparr>"]
  by (simp add: Milliseconds_def)

subsection \<open>Lockfile resolution\<close>

lemma resolve_step_error:
  "decl_request d = None \<Longrightarrow> \<exists>err. resolve_declarations lock u clk (d # rest) = Inl err"
  by (auto simp: decl_request_def resolve_declarations.simps(2) split: sum.splits)

lemma resolve_step_keep:
  "satisfied (Plugins lock) d \<Longrightarrow>
   resolve_declarations lock u clk (d # rest) = resolve_declarations lock u clk rest"
  by (auto simp: satisfied_def decl_request_def GetPlugin_def Let_def
      resolve_declarations.simps(2) split: sum.splits option.splits)

lemma resolve_step_update:
  "decl_request d = Some (n, c) \<Longrightarrow> \<not> satisfied (Plugins lock) d \<Longrightarrow>
   resolve_declarations lock u clk (d # rest) =
     resolve_declarations (lock\<lparr>Plugins := (Plugins lock)(n \<mapsto> entry_for d clk)\<rparr>)
       True (Suc clk) rest"
  by (auto simp: satisfied_def decl_request_def GetPlugin_def Let_def AddPlugin_def entry_for_def
      resolve_declarations.simps(2) split: sum.splits option.splits)

lemma entry_for_Requested:
  "decl_request d = Some (n, c) \<Longrightarrow> pl_Requested (entry_for d clk) = c"
  by (auto simp: decl_request_def entry_for_def split: sum.splits)

lemma resolve_all_satisfied:
  "\<forall>d \<in> set decls. satisfied (Plugins lock) d \<Longrightarrow>
   resolve_declarations lock u clk decls = Inr (lock, u, clk)"
  by (induction decls) (simp_all add: resolve_step_keep)

lemma resolve_keeps_entry:
  "resolve_declarations lock u clk decls = Inr (lock1, u1, clk1) \<Longrightarrow>
   Plugins lock n = Some e \<Longrightarrow>
   \<forall>d \<in> set decls. \<forall>c. decl_request d = Some (n, c) \<longrightarrow> c = pl_Requested e \<Longrightarrow>
   Plugins lock1 n = Some e"
proof (induction decls arbitrary: lock u clk)
  case Nil
  then show ?case by simp
next
  case (Cons d rest)
  show ?case
  proof (cases "decl_request d")
    case None
    with Cons.prems(1) resolve_step_error [OF None, of lock u clk rest] show ?thesis by auto
  next
    case (Some nc)
    then obtain m c where dr: "decl_request d = Some (m, c)" by (cases nc) auto
    show ?thesis
    proof (cases "satisfied (Plugins lock) d")
      case True
      with Cons.prems have r: "resolve_declarations lock u clk rest = Inr (lock1, u1, clk1)"
        by (simp add: resolve_step_keep)
      from Cons.IH [OF r Cons.prems(2)] Cons.prems(3) show ?thesis by simp
    next
      case False
      have "m \<noteq> n"
      proof
        assume "m = n"
        with dr Cons.prems(2,3) have "satisfied (Plugins lock) d"
          by (auto simp: satisfied_def)
        with False show False by simp
      qed
      then have "Plugins (lock\<lparr>Plugins := (Plugins lock)(m \<mapsto> entry_for d clk)\<rparr>) n = Some e"
        using Cons.prems(2) by simp
      moreover have "resolve_declarations (lock\<lparr>Plugins := (Plugins lock)(m \<mapsto> entry_for d clk)\<rparr>)
           True (Suc clk) rest = Inr (lock1, u1, clk1)"
        using Cons.prems(1) resolve_step_update [OF dr False] by simp
      ultimately show ?thesis using Cons.IH Cons.prems(3) by auto
    qed
  qed
qed

lemma agreeing_Cons:
  assumes "agreeing (d # rest)"
  shows "agreeing rest"
  unfolding agreeing_def
proof (intro ballI allI impI)
  fix d1 d2 n c1 c2
  assume "d1 \<in> set rest" "d2 \<in> set rest"
    and r: "decl_request d1 = Some (n, c1) \<and> decl_request d2 = Some (n, c2)"
  then have "d1 \<in> set (d # rest)" "d2 \<in> set (d # rest)" by simp_all
  with assms r show "c1 = c2" unfolding agreeing_def by blast
qed

lemma agreeing_head:
  assumes "agreeing (d # rest)" "decl_request d = Some (n, c)"
    "d' \<in> set rest" "decl_request d' = Some (n, c')"
  shows "c' = c"
proof -
  have "d' \<in> set (d # rest)" "d \<in> set (d # rest)" using assms(3) by simp_all
  with assms(1) have "\<forall>n c1 c2. decl_request d' = Some (n, c1) \<and> decl_request d = Some (n, c2)
      \<longrightarrow> c1 = c2"
    unfolding agreeing_def by blast
  with assms(2,4) show ?thesis by blast
qed

lemma resolve_satisfies:
  "resolve_declarations lock u clk decls = Inr (lock1, u1, clk1) \<Longrightarrow> agreeing decls \<Longrightarrow>
   \<forall>d \<in> set decls. satisfied (Plugins lock1) d"
proof (induction decls arbitrary: lock u clk)
  case Nil
  then show ?case by simp
next
  case (Cons d rest)
  show ?case
  proof (cases "decl_request d")
    case None
    with Cons.prems(1) resolve_step_error [OF None, of lock u clk rest] show ?thesis by auto
  next
    case (Some nc)
    then obtain n c where dr: "decl_request d = Some (n, c)" by (cases nc) auto
    have agree: "\<forall>d' \<in> set rest. \<forall>c'. decl_request d' = Some (n, c') \<longrightarrow> c' = c"
      using agreeing_head [OF Cons.prems(2) dr] by blast
    have rest_ag: "agreeing rest" using Cons.prems(2) by (rule agreeing_Cons)
    show ?thesis
    proof (cases "satisfied (Plugins lock) d")
      case True
      with Cons.prems(1) have r: "resolve_declarations lock u clk rest = Inr (lock1, u1, clk1)"
        by (simp add: resolve_step_keep)
      from True dr obtain e where e: "Plugins lock n = Some e" "pl_Requested e = c"
        by (auto simp: satisfied_def split: option.splits)
      from resolve_keeps_entry [OF r e(1)] agree e(2) have "Plugins lock1 n = Some e" by auto
      with e dr have "satisfied (Plugins lock1) d" by (simp add: satisfied_def)
      with Cons.IH [OF r rest_ag] show ?thesis by simp
    next
      case False
      let ?lock = "lock\<lparr>Plugins := (Plugins lock)(n \<mapsto> entry_for d clk)\<rparr>"
      have r: "resolve_declarations ?lock True (Suc clk) rest = Inr (lock1, u1, clk1)"
        using Cons.prems(1) resolve_step_update [OF dr False] by simp
      have e: "Plugins ?lock n = Some (entry_for d clk)" by simp
      from resolve_keeps_entry [OF r e] agree entry_for_Requested [OF dr, of clk]
      have "Plugins lock1 n = Some (entry_for d clk)" by auto
      with dr entry_for_Requested [OF dr, of clk] have "satisfied (Plugins lock1) d"
        by (simp add: satisfied_def)
      with Cons.IH [OF r rest_ag] show ?thesis by simp
    qed
  qed
qed

lemma resolve_not_updated:
  "resolve_declarations lock u clk decls = Inr (lock1, False, clk1) \<Longrightarrow>
   lock1 = lock \<and> clk1 = clk \<and> \<not> u \<and> (\<forall>d \<in> set decls. satisfied (Plugins lock) d)"
proof (induction decls arbitrary: lock u clk)
  case Nil
  then show ?case by simp
next
  case (Cons d rest)
  show ?case
  proof (cases "decl_request d")
    case None
    with Cons.prems(1) resolve_step_error [OF None, of lock u clk rest] show ?thesis by auto
  next
    case (Some nc)
    then obtain n c where dr: "decl_request d = Some (n, c)" by (cases nc) auto
    show ?thesis
    proof (cases "satisfied (Plugins lock) d")
      case True
      with Cons.prems have r: "resolve_declarations lock u clk rest = Inr (lock1, False, clk1)"
        by (simp add: resolve_step_keep)
      from Cons.IH [OF r] True show ?thesis by simp
    next
      case False
      with Cons.prems resolve_step_update [OF dr False, where u = u and rest = rest and clk = clk]
      have "resolve_declarations (lock\<lparr>Plugins := (Plugins lock)(n \<mapsto> entry_for d clk)\<rparr>)
              True (Suc clk) rest = Inr (lock1, False, clk1)" by simp
      from Cons.IH [OF this] show ?thesis by simp
    qed
  qed
qed


text \<open>
  C7 (as the code has it).  When \<open>ResolvePlugins\<close> succeeds: an entry of the loaded
  lockfile is in the result unchanged if every declaration of its name asks for the
  constraint it records; and if the declarations agree (declarations of one name ask
  for one constraint), running \<open>ResolvePlugins\<close> again on the same declarations,
  from the repository and the clock the first run left, succeeds with the same
  entries and leaves the repository as it was, so \<open>Save\<close> is not called.
\<close>

theorem ResolvePlugins_idempotent:
  "ResolvePlugins repo clock decls path = (Inr lock1, repo1, clock1) \<longrightarrow>
     (\<forall>lock0 n e. files repo path = Some lock0 \<and> Plugins lock0 n = Some e \<and>
         (\<forall>d \<in> set decls. \<forall>c. decl_request d = Some (n, c) \<longrightarrow> c = pl_Requested e)
         \<longrightarrow> Plugins lock1 n = Some e) \<and>
     (agreeing decls \<longrightarrow>
        (\<exists>lock2 clock2.
           ResolvePlugins repo1 clock1 decls path = (Inr lock2, repo1, clock2) \<and>
           Plugins lock2 = Plugins lock1))"
proof (intro impI)
  assume run: "ResolvePlugins repo clock decls path = (Inr lock1, repo1, clock1)"
  from run have nofail: "\<not> load_fails repo"
    by (auto simp: ResolvePlugins_def repo_Load_def split: if_splits)
  define start where "start = (case files repo path of None \<Rightarrow> NewLockfile clock | Some l \<Rightarrow> l)"
  define c1 where "c1 = (case files repo path of None \<Rightarrow> Suc clock | Some l \<Rightarrow> clock)"
  have unfold1: "ResolvePlugins repo clock decls path =
     (case resolve_declarations start False c1 decls of
        Inl err \<Rightarrow> (Inl err, repo, c1)
      | Inr (lk, updated, c2) \<Rightarrow>
          if updated then
            (case repo_Save repo (lk\<lparr>Generated := c2\<rparr>) path of
               (Some err, r) \<Rightarrow> (Inl err, r, Suc c2)
             | (None, r) \<Rightarrow> (Inr (lk\<lparr>Generated := c2\<rparr>), r, Suc c2))
          else (Inr lk, repo, c2))"
    using nofail
    by (cases "files repo path")
       (simp_all add: ResolvePlugins_def repo_Load_def start_def c1_def Let_def
          cong: sum.case_cong prod.case_cong if_cong)
  from run unfold1 obtain lk upd c2 where
    loop: "resolve_declarations start False c1 decls = Inr (lk, upd, c2)"
    by (auto split: sum.splits)
  have P1: "Plugins lock1 = Plugins lk"
    using run unfold1 loop by (auto split: if_splits prod.splits option.splits)
  have keep: "Plugins lock1 n = Some e"
    if "files repo path = Some lock0" "Plugins lock0 n = Some e"
       "\<forall>d \<in> set decls. \<forall>c. decl_request d = Some (n, c) \<longrightarrow> c = pl_Requested e"
    for lock0 n e
  proof -
    from that(1) have "start = lock0" by (simp add: start_def)
    with resolve_keeps_entry [OF loop _ that(3)] that(2) P1 show ?thesis by simp
  qed
  have again: "\<exists>lock2 clock2.
           ResolvePlugins repo1 clock1 decls path = (Inr lock2, repo1, clock2) \<and>
           Plugins lock2 = Plugins lock1" if ag: "agreeing decls"
  proof (cases upd)
    case True
    with run unfold1 loop have
      saved: "repo_Save repo (lk\<lparr>Generated := c2\<rparr>) path = (None, repo1)"
      and l1: "lock1 = lk\<lparr>Generated := c2\<rparr>" and cl: "clock1 = Suc c2"
      by (auto split: prod.splits option.splits)
    from saved have f: "files repo1 path = Some lock1" "\<not> load_fails repo1"
      using nofail l1 by (auto simp: repo_Save_def split: if_splits)
    from resolve_satisfies [OF loop ag] P1
    have "\<forall>d \<in> set decls. satisfied (Plugins lock1) d" by simp
    then have "resolve_declarations lock1 False clock1 decls = Inr (lock1, False, clock1)"
      by (rule resolve_all_satisfied)
    with f have "ResolvePlugins repo1 clock1 decls path = (Inr lock1, repo1, clock1)"
      by (simp add: ResolvePlugins_def repo_Load_def)
    then show ?thesis by blast
  next
    case False
    with run unfold1 loop have r1: "repo1 = repo" and l1: "lock1 = lk" and cl: "clock1 = c2"
      by auto
    from resolve_not_updated [of start False c1 decls lk c2] loop False
    have st: "lk = start" and sat: "\<forall>d \<in> set decls. satisfied (Plugins start) d" by auto
    show ?thesis
    proof (cases "files repo path")
      case None
      then have "Plugins start = Plugins (NewLockfile clock1)"
        by (simp add: start_def NewLockfile_def)
      with sat have "\<forall>d \<in> set decls. satisfied (Plugins (NewLockfile clock1)) d" by simp
      then have "resolve_declarations (NewLockfile clock1) False (Suc clock1) decls
                   = Inr (NewLockfile clock1, False, Suc clock1)"
        by (rule resolve_all_satisfied)
      with None nofail r1
      have "ResolvePlugins repo1 clock1 decls path = (Inr (NewLockfile clock1), repo1, Suc clock1)"
        by (simp add: ResolvePlugins_def repo_Load_def)
      moreover have "Plugins (NewLockfile clock1) = Plugins lock1"
        using None l1 st by (simp add: start_def NewLockfile_def)
      ultimately show ?thesis by blast
    next
      case (Some l)
      then have s: "start = l" by (simp add: start_def)
      with sat have "resolve_declarations l False clock1 decls = Inr (l, False, clock1)"
        by (intro resolve_all_satisfied) simp
      with Some nofail r1
      have "ResolvePlugins repo1 clock1 decls path = (Inr l, repo1, clock1)"
        by (simp add: ResolvePlugins_def repo_Load_def)
      with l1 st s show ?thesis by blast
    qed
  qed
  show "(\<forall>lock0 n e. files repo path = Some lock0 \<and> Plugins lock0 n = Some e \<and>
         (\<forall>d \<in> set decls. \<forall>c. decl_request d = Some (n, c) \<longrightarrow> c = pl_Requested e)
         \<longrightarrow> Plugins lock1 n = Some e) \<and>
     (agreeing decls \<longrightarrow>
        (\<exists>lock2 clock2.
           ResolvePlugins repo1 clock1 decls path = (Inr lock2, repo1, clock2) \<and>
           Plugins lock2 = Plugins lock1))"
    using keep again by blast
qed

lemma parse_file_120:
  "ParsePluginDeclaration ''file@1.2.0'' =
     Inr \<lparr>ps_Name = ''file'', ps_Source = ''file'', ps_Version = ''1.2.0'', ps_Digest = [],
          ps_Verify = False\<rparr>"
  by (simp add: ParsePluginDeclaration_def Let_def)

text \<open>
  The scenario of the specification: no lockfile, \<open>["file@1.2.0"]\<close>; one entry with
  requested \<open>1.2.0\<close> is saved, and the second run does not save.
\<close>

theorem ResolvePlugins_idempotent_witness:
  "\<exists>lock1 repo1 clock1.
     ResolvePlugins \<lparr>files = Map.empty, load_fails = False, save_fails = False, saves = 0\<rparr> 1
       [''file@1.2.0''] ''reglet.lock'' = (Inr lock1, repo1, clock1) \<and>
     saves repo1 = 1 \<and>
     dom (Plugins lock1) = {''file''} \<and>
     map_option pl_Requested (Plugins lock1 ''file'') = Some ''1.2.0'' \<and>
     (\<exists>lock2 clock2.
        ResolvePlugins repo1 clock1 [''file@1.2.0''] ''reglet.lock'' = (Inr lock2, repo1, clock2) \<and>
        Plugins lock2 = Plugins lock1)"
proof -
  let ?repo = "\<lparr>files = Map.empty, load_fails = False, save_fails = False, saves = 0\<rparr>"
  let ?e = "\<lparr>pl_Fetched = 2, pl_Modified = 0, pl_Requested = ''1.2.0'', pl_Resolved = ''1.2.0'',
            pl_Source = ''file'', pl_Digest = ''sha256:placeholder''\<rparr>"
  let ?lock1 = "\<lparr>Generated = 3, Plugins = [''file'' \<mapsto> ?e], Profiles = Map.empty, Version = 1\<rparr>"
  let ?repo1 = "\<lparr>files = [''reglet.lock'' \<mapsto> ?lock1], load_fails = False, save_fails = False,
                saves = 1\<rparr>"
  have run: "ResolvePlugins ?repo 1 [''file@1.2.0''] ''reglet.lock'' = (Inr ?lock1, ?repo1, 4)"
    by (simp add: ResolvePlugins_def repo_Load_def repo_Save_def NewLockfile_def
        resolve_declarations.simps(2) parse_file_120 GetPlugin_def AddPlugin_def Let_def
        eval_nat_numeral)
  have ag: "agreeing [''file@1.2.0'']" by (auto simp: agreeing_def)
  from ResolvePlugins_idempotent [of ?repo 1 "[''file@1.2.0'']" "''reglet.lock''" ?lock1 ?repo1 4]
    run ag
  have "\<exists>lock2 clock2.
        ResolvePlugins ?repo1 4 [''file@1.2.0''] ''reglet.lock'' = (Inr lock2, ?repo1, clock2) \<and>
        Plugins lock2 = Plugins ?lock1" by blast
  with run show ?thesis by (intro exI [of _ ?lock1] exI [of _ ?repo1] exI [of _ 4]) simp
qed


lemma parse_file_100:
  "ParsePluginDeclaration ''file@1.0.0'' =
     Inr \<lparr>ps_Name = ''file'', ps_Source = ''file'', ps_Version = ''1.0.0'', ps_Digest = [],
          ps_Verify = False\<rparr>"
  by (simp add: ParsePluginDeclaration_def Let_def)

lemma parse_file_200:
  "ParsePluginDeclaration ''file@2.0.0'' =
     Inr \<lparr>ps_Name = ''file'', ps_Source = ''file'', ps_Version = ''2.0.0'', ps_Digest = [],
          ps_Verify = False\<rparr>"
  by (simp add: ParsePluginDeclaration_def Let_def)

text \<open>
  C7 as stated fails for declarations of one name with different constraints: starting
  with no lockfile, \<open>["file@1.0.0", "file@2.0.0"]\<close> is resolved and saved (one
  \<open>Save\<close>), and the second run on the same input, from the repository the first
  run left, replaces the entry twice and calls \<open>Save\<close> again (two calls in all),
  leaving an entry with another fetch time.
\<close>

theorem ResolvePlugins_conflicting_declarations_counterexample:
  "ResolvePlugins \<lparr>files = Map.empty, load_fails = False, save_fails = False, saves = 0\<rparr> 1
     [''file@1.0.0'', ''file@2.0.0''] ''reglet.lock''
   = (Inr \<lparr>Generated = 4,
            Plugins = [''file'' \<mapsto>
              \<lparr>pl_Fetched = 3, pl_Modified = 0, pl_Requested = ''2.0.0'',
               pl_Resolved = ''2.0.0'', pl_Source = ''file'',
               pl_Digest = ''sha256:placeholder''\<rparr>],
            Profiles = Map.empty, Version = 1\<rparr>,
      \<lparr>files = [''reglet.lock'' \<mapsto>
         \<lparr>Generated = 4,
          Plugins = [''file'' \<mapsto>
            \<lparr>pl_Fetched = 3, pl_Modified = 0, pl_Requested = ''2.0.0'',
             pl_Resolved = ''2.0.0'', pl_Source = ''file'',
             pl_Digest = ''sha256:placeholder''\<rparr>],
          Profiles = Map.empty, Version = 1\<rparr>],
       load_fails = False, save_fails = False, saves = 1\<rparr>,
      5) \<and>
   ResolvePlugins
     \<lparr>files = [''reglet.lock'' \<mapsto>
        \<lparr>Generated = 4,
         Plugins = [''file'' \<mapsto>
           \<lparr>pl_Fetched = 3, pl_Modified = 0, pl_Requested = ''2.0.0'',
            pl_Resolved = ''2.0.0'', pl_Source = ''file'',
            pl_Digest = ''sha256:placeholder''\<rparr>],
         Profiles = Map.empty, Version = 1\<rparr>],
      load_fails = False, save_fails = False, saves = 1\<rparr>
     5 [''file@1.0.0'', ''file@2.0.0''] ''reglet.lock''
   = (Inr \<lparr>Generated = 7,
            Plugins = [''file'' \<mapsto>
              \<lparr>pl_Fetched = 6, pl_Modified = 0, pl_Requested = ''2.0.0'',
               pl_Resolved = ''2.0.0'', pl_Source = ''file'',
               pl_Digest = ''sha256:placeholder''\<rparr>],
            Profiles = Map.empty, Version = 1\<rparr>,
      \<lparr>files = [''reglet.lock'' \<mapsto>
         \<lparr>Generated = 7,
          Plugins = [''file'' \<mapsto>
            \<lparr>pl_Fetched = 6, pl_Modified = 0, pl_Requested = ''2.0.0'',
             pl_Resolved = ''2.0.0'', pl_Source = ''file'',
             pl_Digest = ''sha256:placeholder''\<rparr>],
          Profiles = Map.empty, Version = 1\<rparr>],
       load_fails = False, save_fails = False, saves = 2\<rparr>,
      8)"
  by (simp add: ResolvePlugins_def repo_Load_def repo_Save_def NewLockfile_def
      resolve_declarations.simps(2) parse_file_100 parse_file_200 GetPlugin_def AddPlugin_def
      Let_def eval_nat_numeral)

subsection \<open>Security levels of the gatekeeper\<close>

lemma prompt_each_append:
  "prompt_each g ops (xs @ ys) st =
     (case prompt_each g ops xs st of
        (Some err, st1) \<Rightarrow> (Some err, st1)
      | (None, st1) \<Rightarrow> prompt_each g ops ys st1)"
  by (induction xs arbitrary: st) (auto split: prod.splits option.splits)

lemma promptForCapabilities_prompt_each:
  "promptForCapabilities g ops missing st = prompt_each g ops (capability_requests missing) st"
  by (auto simp: promptForCapabilities_def promptForNetwork_def promptForFS_def promptForEnv_def
      promptForExec_def capability_requests_def prompt_each_append
      split: option.splits prod.splits)

lemma evaluate_strict_broad:
  "req_IsBroad req \<Longrightarrow> securityLevel g = SecurityStrict \<Longrightarrow>
   evaluateWithSecurityLevel g req fs tr
     = ((False, False, Some (BroadDenied (req_Description req))), tr)"
  by (simp add: evaluateWithSecurityLevel_def)

lemma evaluate_permissive:
  "securityLevel g = SecurityPermissive \<Longrightarrow>
   evaluateWithSecurityLevel g req fs tr = ((True, False, None), tr)"
  by (simp add: evaluateWithSecurityLevel_def SecurityPermissive_def SecurityStrict_def)

lemma evaluate_prompts:
  "securityLevel g \<noteq> SecurityPermissive \<Longrightarrow>
   \<not> (req_IsBroad req \<and> securityLevel g = SecurityStrict) \<Longrightarrow>
   evaluateWithSecurityLevel g req fs tr
     = ((case PromptForCapability (prompter g) (prompted tr) req of
           (granted, always, err) \<Rightarrow> (granted, always, map_option PrompterFailed err)),
        tr @ [Prompted req])"
  by (auto simp: evaluateWithSecurityLevel_def split: prod.splits)

lemma prompted_append [simp]: "prompted (xs @ ys) = prompted xs @ prompted ys"
  by (induction xs rule: prompted.induct) auto

text \<open>Under Strict a broad request never reaches the prompter.\<close>

lemma prompt_rule_strict:
  "securityLevel g = SecurityStrict \<Longrightarrow>
   prompt_rule g ops req gs (ng, sv, tr) = (err, ng1, sv1, tr1) \<Longrightarrow>
   (req_IsBroad req \<longrightarrow> err = Some (BroadDenied (req_Description req)) \<and> tr1 = tr) \<and>
   (\<not> req_IsBroad req \<longrightarrow> tr1 = tr @ [Prompted req])"
  by (auto simp: prompt_rule_def evaluate_strict_broad evaluate_prompts
      SecurityStrict_def SecurityPermissive_def split: prod.splits if_splits)

lemma prompt_each_strict:
  "securityLevel g = SecurityStrict \<Longrightarrow>
   prompt_each g ops reqs (ng, sv, tr) = (err, ng1, sv1, tr1) \<Longrightarrow>
   (\<forall>r \<in> set (prompted tr1). r \<in> set (prompted tr) \<or> \<not> req_IsBroad r) \<and>
   ((\<exists>p \<in> set reqs. req_IsBroad (fst p)) \<longrightarrow> err \<noteq> None)"
proof (induction reqs arbitrary: ng sv tr)
  case Nil
  then show ?case by simp
next
  case (Cons p rest)
  obtain req gs where p: "p = (req, gs)" by (cases p)
  obtain e ng2 sv2 tr2 where st: "prompt_rule g ops req gs (ng, sv, tr) = (e, ng2, sv2, tr2)"
    by (cases "prompt_rule g ops req gs (ng, sv, tr)") auto
  note R = prompt_rule_strict [OF Cons.prems(1) st]
  show ?case
  proof (cases e)
    case (Some x)
    with Cons.prems(2) p st have "err = Some x" "tr1 = tr2" by auto
    with R show ?thesis by (cases "req_IsBroad req") auto
  next
    case None
    with R have nb: "\<not> req_IsBroad req" and t2: "tr2 = tr @ [Prompted req]" by auto
    from None Cons.prems(2) p st
    have "prompt_each g ops rest (ng2, sv2, tr2) = (err, ng1, sv1, tr1)" by simp
    from Cons.IH [OF Cons.prems(1) this] nb t2 p show ?thesis by auto
  qed
qed

text \<open>Under Permissive every request is granted without a prompt.\<close>

lemma prompt_rule_permissive:
  "securityLevel g = SecurityPermissive \<Longrightarrow>
   prompt_rule g ops req gs (ng, sv, tr) = (None, op_Merge ops ng gs, sv, tr)"
  by (simp add: prompt_rule_def evaluate_permissive)

lemma prompt_each_permissive:
  "securityLevel g = SecurityPermissive \<Longrightarrow>
   prompt_each g ops reqs (ng, sv, tr)
     = (None, foldl (\<lambda>acc p. op_Merge ops acc (snd p)) ng reqs, sv, tr)"
  by (induction reqs arbitrary: ng) (auto simp: prompt_rule_permissive)

text \<open>Under Standard the prompter is asked the requests in order, up to the first error.\<close>

lemma prompt_rule_standard:
  "securityLevel g = SecurityStandard \<Longrightarrow>
   prompt_rule g ops req gs (ng, sv, tr) = (err, ng1, sv1, tr1) \<Longrightarrow>
   tr1 = tr @ [Prompted req]"
  by (auto simp: prompt_rule_def evaluate_prompts
      SecurityStrict_def SecurityPermissive_def SecurityStandard_def split: prod.splits if_splits)

lemma prompt_each_standard:
  "securityLevel g = SecurityStandard \<Longrightarrow>
   prompt_each g ops reqs (ng, sv, tr) = (err, ng1, sv1, tr1) \<Longrightarrow>
   \<exists>k \<le> length reqs. prompted tr1 = prompted tr @ take k (map fst reqs) \<and>
       (err = None \<longrightarrow> k = length reqs)"
proof (induction reqs arbitrary: ng sv tr)
  case Nil
  then show ?case by simp
next
  case (Cons p rest)
  obtain req gs where p: "p = (req, gs)" by (cases p)
  obtain e ng2 sv2 tr2 where st: "prompt_rule g ops req gs (ng, sv, tr) = (e, ng2, sv2, tr2)"
    by (cases "prompt_rule g ops req gs (ng, sv, tr)") auto
  from prompt_rule_standard [OF Cons.prems(1) st] have t2: "tr2 = tr @ [Prompted req]" .
  show ?case
  proof (cases e)
    case (Some x)
    with Cons.prems(2) p st have "err = Some x" "tr1 = tr2" by auto
    with t2 p show ?thesis by (intro exI [of _ 1]) simp
  next
    case None
    with Cons.prems(2) p st
    have "prompt_each g ops rest (ng2, sv2, tr2) = (err, ng1, sv1, tr1)" by simp
    from Cons.IH [OF Cons.prems(1) this] obtain k where
      k: "k \<le> length rest" "prompted tr1 = prompted tr2 @ take k (map fst rest)"
         "err = None \<longrightarrow> k = length rest" by auto
    with t2 p show ?thesis by (intro exI [of _ "Suc k"]) simp
  qed
qed


lemma singleton_iff: "(length xs = Suc 0 \<and> xs ! 0 = x) = (xs = [x])"
  by (cases xs) auto

lemma network_request_broad:
  "req_IsBroad (fst (network_request rule)) = broad_request (fst (network_request rule))"
  using singleton_iff [of "Hosts rule" "''*''"] singleton_iff [of "Ports rule" "''*''"]
  by (auto simp: network_request_def broad_request_def Let_def)

lemma fs_rule_requests_broad:
  "p \<in> set (fs_rule_requests rule) \<Longrightarrow> req_IsBroad (fst p) = broad_request (fst p)"
  by (auto simp: fs_rule_requests_def fs_read_request_def fs_write_request_def
      broad_request_def Let_def)

lemma env_request_broad:
  "req_IsBroad (fst (env_request v)) = broad_request (fst (env_request v))"
  by (simp add: env_request_def broad_request_def Let_def)

lemma exec_request_broad:
  "req_IsBroad (fst (exec_request c)) = broad_request (fst (exec_request c))"
  by (simp add: exec_request_def broad_request_def Let_def)

lemma capability_requests_broad:
  "p \<in> set (capability_requests missing) \<Longrightarrow> req_IsBroad (fst p) = broad_request (fst p)"
  by (auto simp: capability_requests_def network_request_broad fs_rule_requests_broad
      env_request_broad exec_request_broad split: option.splits)

text \<open>
  C2 (as the code has it).  For a request handed to \<open>evaluateWithSecurityLevel\<close>:
  under Strict a broad request is denied with the error naming its description and the
  prompter is not asked; under Permissive every request is granted (once) and the
  prompter is not asked; under Standard the request is put to the prompter.  The
  requests built from a missing set are flagged broad exactly as \<open>broad_request\<close>
  says.  For the loop over a missing set: under Strict the prompter is never asked a
  broad request, and a missing set holding a broad request ends in an error; under
  Permissive the loop asks nothing, fails nowhere and merges every one-rule grant;
  under Standard the prompter is asked the requests in order, all of them unless an
  error or a denial stops the loop.
\<close>

theorem security_level_policy:
  "(securityLevel g = SecurityStrict \<and> req_IsBroad req \<longrightarrow>
      evaluateWithSecurityLevel g req factors tr
        = ((False, False, Some (BroadDenied (req_Description req))), tr)) \<and>
   (securityLevel g = SecurityPermissive \<longrightarrow>
      evaluateWithSecurityLevel g req factors tr = ((True, False, None), tr)) \<and>
   (securityLevel g = SecurityStandard \<longrightarrow>
      snd (evaluateWithSecurityLevel g req factors tr) = tr @ [Prompted req]) \<and>
   (\<forall>p \<in> set (capability_requests missing). req_IsBroad (fst p) = broad_request (fst p)) \<and>
   (\<forall>err ng1 sv1 tr1.
      promptForCapabilities g ops missing (ng, sv, tr) = (err, ng1, sv1, tr1) \<longrightarrow>
      (securityLevel g = SecurityStrict \<longrightarrow>
         (\<forall>r \<in> set (prompted tr1). r \<in> set (prompted tr) \<or> \<not> req_IsBroad r) \<and>
         ((\<exists>p \<in> set (capability_requests missing). req_IsBroad (fst p)) \<longrightarrow> err \<noteq> None)) \<and>
      (securityLevel g = SecurityPermissive \<longrightarrow>
         err = None \<and> tr1 = tr \<and> sv1 = sv \<and>
         ng1 = foldl (\<lambda>acc p. op_Merge ops acc (snd p)) ng (capability_requests missing)) \<and>
      (securityLevel g = SecurityStandard \<longrightarrow>
         (\<exists>k \<le> length (capability_requests missing).
            prompted tr1 = prompted tr @ take k (map fst (capability_requests missing)) \<and>
            (err = None \<longrightarrow> k = length (capability_requests missing)))))"
proof -
  have std: "snd (evaluateWithSecurityLevel g req factors tr) = tr @ [Prompted req]"
    if "securityLevel g = SecurityStandard"
    using that evaluate_prompts [of g req factors tr]
    by (simp add: SecurityStandard_def SecurityPermissive_def SecurityStrict_def)
  have loop: "(securityLevel g = SecurityStrict \<longrightarrow>
         (\<forall>r \<in> set (prompted tr1). r \<in> set (prompted tr) \<or> \<not> req_IsBroad r) \<and>
         ((\<exists>p \<in> set (capability_requests missing). req_IsBroad (fst p)) \<longrightarrow> err \<noteq> None)) \<and>
      (securityLevel g = SecurityPermissive \<longrightarrow>
         err = None \<and> tr1 = tr \<and> sv1 = sv \<and>
         ng1 = foldl (\<lambda>acc p. op_Merge ops acc (snd p)) ng (capability_requests missing)) \<and>
      (securityLevel g = SecurityStandard \<longrightarrow>
         (\<exists>k \<le> length (capability_requests missing).
            prompted tr1 = prompted tr @ take k (map fst (capability_requests missing)) \<and>
            (err = None \<longrightarrow> k = length (capability_requests missing))))"
    if "promptForCapabilities g ops missing (ng, sv, tr) = (err, ng1, sv1, tr1)"
    for err ng1 sv1 tr1
  proof -
    from that have pe:
      "prompt_each g ops (capability_requests missing) (ng, sv, tr) = (err, ng1, sv1, tr1)"
      by (simp add: promptForCapabilities_prompt_each)
    show ?thesis
      using prompt_each_strict [OF _ pe] prompt_each_standard [OF _ pe]
        prompt_each_permissive [of g ops "capability_requests missing" ng sv tr] pe
      by auto
  qed
  show ?thesis
    using evaluate_strict_broad [of req g factors tr] evaluate_permissive [of g req factors tr]
      std capability_requests_broad [of _ missing] loop
    by blast
qed

theorem security_level_policy_witness:
  "evaluateWithSecurityLevel (example_gatekeeper SecurityStrict True)
     (fst (network_request \<lparr>Hosts = [''*''], Ports = [''*'']\<rparr>)) [] []
   = ((False, False, Some (BroadDenied ''network [*]:[*]'')), []) \<and>
   GrantCapabilities (example_gatekeeper SecurityStrict True) example_ops
     (Some (EmptyGrantSet\<lparr>Network := Some [\<lparr>Hosts = [''*''], Ports = [''*'']\<rparr>]\<rparr>)) False
   = (Inl (BroadDenied ''network [*]:[*]''), [StoreLoad, AskedInteractive])"
proof -
  let ?g = "example_gatekeeper SecurityStrict True"
  let ?req = "fst (network_request \<lparr>Hosts = [''*''], Ports = [''*'']\<rparr>)"
  have a: "securityLevel ?g = SecurityStrict \<and> req_IsBroad ?req"
    by (simp add: example_gatekeeper_def network_request_def)
  have d: "req_Description ?req = ''network [*]:[*]''"
    by (simp add: network_request_def fmt_strings_def)
  from security_level_policy [of ?g ?req "[]" "[]"] a
  have 1: "evaluateWithSecurityLevel ?g ?req [] []
        = ((False, False, Some (BroadDenied (req_Description ?req))), [])" by blast
  have 2: "GrantCapabilities ?g example_ops
     (Some (EmptyGrantSet\<lparr>Network := Some [\<lparr>Hosts = [''*''], Ports = [''*'']\<rparr>]\<rparr>)) False
   = (Inl (BroadDenied ''network [*]:[*]''), [StoreLoad, AskedInteractive])"
    by (simp add: GrantCapabilities_def example_ops_def example_gatekeeper_def EmptyGrantSet_def
        promptForCapabilities_def promptForNetwork_def prompt_rule_def network_request_def
        evaluateWithSecurityLevel_def fmt_strings_def Let_def)
  from 1 2 show ?thesis unfolding d by simp
qed

text \<open>
  C2 as stated fails in two ways.  Under Strict the filesystem read pattern \<open>*\<close> is
  not flagged broad: it is put to the prompter and granted.  And \<open>GrantCapabilities\<close>
  asks the prompter whether it is interactive before any level applies: under
  Permissive with a non-interactive prompter nothing is granted, the call fails with
  the non-interactive error.
\<close>

theorem security_level_policy_counterexample:
  "promptForCapabilities (example_gatekeeper SecurityStrict True) example_ops
     (EmptyGrantSet\<lparr>FS := Some [\<lparr>Read = [''*''], Write = []\<rparr>]\<rparr>) (EmptyGrantSet, False, [])
   = (None, EmptyGrantSet\<lparr>FS := Some [\<lparr>Read = [''*''], Write = []\<rparr>]\<rparr>, False,
      [Prompted \<lparr>req_Rule = FileSystemRuleValue \<lparr>Read = [''*''], Write = []\<rparr>,
                 req_Kind = ''fs'', req_Description = ''fs read:*'', req_IsBroad = False\<rparr>]) \<and>
   GrantCapabilities (example_gatekeeper SecurityPermissive False) example_ops
     (Some (EmptyGrantSet\<lparr>Env := Some [''HOME'']\<rparr>)) False
   = (Inl (NonInteractive (EmptyGrantSet\<lparr>Env := Some [''HOME'']\<rparr>)),
      [StoreLoad, AskedInteractive,
       FormattedNonInteractive (EmptyGrantSet\<lparr>Env := Some [''HOME'']\<rparr>)])"
  by (simp add: GrantCapabilities_def example_ops_def example_gatekeeper_def EmptyGrantSet_def
      promptForCapabilities_def promptForNetwork_def promptForFS_def promptForEnv_def
      promptForExec_def prompt_rule_def fs_rule_requests_def fs_read_request_def
      evaluateWithSecurityLevel_def SecurityStrict_def SecurityPermissive_def Let_def)

text \<open>
  C9.  With a nil or empty required set \<open>GrantCapabilities\<close> returns the empty grant
  set and calls neither the prompter nor the store.  With \<open>trustAll\<close> it calls neither
  the prompter nor the store, and returns the clone of the required set (the empty
  grant set when the required set is nil or empty, by the first case).
\<close>

theorem GrantCapabilities_short_circuits:
  "(required = None \<or> (\<exists>r. required = Some r \<and> op_IsEmpty ops r) \<longrightarrow>
      GrantCapabilities g ops required trustAll = (Inr EmptyGrantSet, [])) \<and>
   (trustAll \<longrightarrow>
      snd (GrantCapabilities g ops required trustAll) = [] \<and>
      (\<forall>r. required = Some r \<and> \<not> op_IsEmpty ops r \<longrightarrow>
         fst (GrantCapabilities g ops required trustAll) = Inr (op_Clone ops r)))"
  by (auto simp: GrantCapabilities_def split: option.splits)

theorem GrantCapabilities_short_circuits_witness:
  "GrantCapabilities (example_gatekeeper SecurityStandard False) example_ops
     (Some EmptyGrantSet) False = (Inr EmptyGrantSet, []) \<and>
   GrantCapabilities (example_gatekeeper SecurityStrict False) example_ops
     (Some (EmptyGrantSet\<lparr>Exec := Some [''**'']\<rparr>)) True
     = (Inr (EmptyGrantSet\<lparr>Exec := Some [''**'']\<rparr>), [])"
proof -
  let ?g1 = "example_gatekeeper SecurityStandard False"
  let ?g2 = "example_gatekeeper SecurityStrict False"
  let ?r = "EmptyGrantSet\<lparr>Exec := Some [''**'']\<rparr>"
  have e: "op_IsEmpty example_ops EmptyGrantSet" by (simp add: example_ops_def)
  have ne: "\<not> op_IsEmpty example_ops ?r" by (simp add: example_ops_def EmptyGrantSet_def)
  have c: "op_Clone example_ops ?r = ?r" by (simp add: example_ops_def)
  from GrantCapabilities_short_circuits [of "Some EmptyGrantSet" example_ops ?g1 False] e
  have 1: "GrantCapabilities ?g1 example_ops (Some EmptyGrantSet) False = (Inr EmptyGrantSet, [])"
    by blast
  from GrantCapabilities_short_circuits [of "Some ?r" example_ops ?g2 True] ne c
  have "snd (GrantCapabilities ?g2 example_ops (Some ?r) True) = [] \<and>
        fst (GrantCapabilities ?g2 example_ops (Some ?r) True) = Inr ?r" by auto
  then have 2: "GrantCapabilities ?g2 example_ops (Some ?r) True = (Inr ?r, [])"
    by (cases "GrantCapabilities ?g2 example_ops (Some ?r) True") auto
  from 1 2 show ?thesis by simp
qed

subsection \<open>Capability middleware\<close>

lemma no_plugin_name:
  "ctx_pluginName ctx = None \<Longrightarrow>
   CapabilityMiddleware env checker next ctx payload
     = (Inr (next ctx payload), [NextCalled ctx payload])"
  by (simp add: CapabilityMiddleware_def finish_def)

lemma payload_not_parsed:
  "ctx_pluginName ctx = Some p \<Longrightarrow> \<not> payload_parses env (FunctionName ctx) payload \<Longrightarrow>
   CapabilityMiddleware env checker next ctx payload
     = (Inr (next (WithValue_ssrf ctx (fst (AllowsPrivateNetwork checker p))) payload),
        AllowsPrivateNetworkCalled p # snd (AllowsPrivateNetwork checker p) @
        [NextCalled (WithValue_ssrf ctx (fst (AllowsPrivateNetwork checker p))) payload])"
  by (auto simp: CapabilityMiddleware_def finish_def payload_parses_def Let_def
      split: if_splits prod.splits)

lemma probe_no_request_check:
  "\<forall>e \<in> set (snd (AllowsPrivateNetwork checker p)). \<not> is_request_check e"
  by (simp add: AllowsPrivateNetwork_def split: option.splits)

text \<open>
  C4 (as the code has it).  When the context carries no plugin name, the inner handler is
  called with the context and payload as they came, and neither the checker nor the
  policy is consulted.  When it carries one, the checker is first asked whether the
  plugin may reach private networks, for which it consults the policy when the plugin
  has grants, and the answer is stored in the context handed on; if the payload does
  not parse as the request type of the function name, the inner handler is then called
  and nothing else happens: no \<open>Check\<close> method runs and no denial is reported.  Hence
  a check of the request, a denial, a validation-error payload or a question to the
  policy beyond that first one occurs only when the plugin name is present and the
  payload parses.
\<close>

theorem CapabilityMiddleware_checks_only_parsed:
  "(ctx_pluginName ctx = None \<longrightarrow>
      CapabilityMiddleware env checker next ctx payload
        = (Inr (next ctx payload), [NextCalled ctx payload])) \<and>
   (\<forall>p. ctx_pluginName ctx = Some p \<and> \<not> payload_parses env (FunctionName ctx) payload \<longrightarrow>
      CapabilityMiddleware env checker next ctx payload
        = (Inr (next (WithValue_ssrf ctx (fst (AllowsPrivateNetwork checker p))) payload),
           AllowsPrivateNetworkCalled p # snd (AllowsPrivateNetwork checker p) @
           [NextCalled (WithValue_ssrf ctx (fst (AllowsPrivateNetwork checker p))) payload]) \<and>
      (\<forall>e \<in> set (snd (AllowsPrivateNetwork checker p)). e = PolicyEvaluateNetwork private_probe)) \<and>
   ((\<exists>e \<in> set (snd (CapabilityMiddleware env checker next ctx payload)). is_request_check e) \<or>
    (\<exists>msg. fst (CapabilityMiddleware env checker next ctx payload) = Inl msg) \<or>
    length (filter is_policy_call (snd (CapabilityMiddleware env checker next ctx payload)))
      > (case ctx_pluginName ctx of None \<Rightarrow> 0
         | Some p \<Rightarrow> length (snd (AllowsPrivateNetwork checker p)))
      \<longrightarrow> ctx_pluginName ctx \<noteq> None \<and> payload_parses env (FunctionName ctx) payload)"
proof -
  have 3: "ctx_pluginName ctx \<noteq> None \<and> payload_parses env (FunctionName ctx) payload"
    if h: "(\<exists>e \<in> set (snd (CapabilityMiddleware env checker next ctx payload)).
              is_request_check e) \<or>
           (\<exists>msg. fst (CapabilityMiddleware env checker next ctx payload) = Inl msg) \<or>
           length (filter is_policy_call (snd (CapabilityMiddleware env checker next ctx payload)))
             > (case ctx_pluginName ctx of None \<Rightarrow> 0
                | Some p \<Rightarrow> length (snd (AllowsPrivateNetwork checker p)))"
  proof (rule ccontr)
    assume "\<not> (ctx_pluginName ctx \<noteq> None \<and> payload_parses env (FunctionName ctx) payload)"
    then consider "ctx_pluginName ctx = None"
      | p where "ctx_pluginName ctx = Some p" "\<not> payload_parses env (FunctionName ctx) payload"
      by auto
    then show False
    proof cases
      case 1
      from no_plugin_name [OF 1, of env checker "next" payload] h 1 show False by simp
    next
      case 2
      have "length (filter is_policy_call (snd (AllowsPrivateNetwork checker p)))
              \<le> length (snd (AllowsPrivateNetwork checker p))" by (rule length_filter_le)
      with payload_not_parsed [OF 2, of checker "next"] h 2(1)
        probe_no_request_check [of checker p]
      show False by auto
    qed
  qed
  have 2: "\<forall>e \<in> set (snd (AllowsPrivateNetwork checker p)). e = PolicyEvaluateNetwork private_probe"
    for p
    by (simp add: AllowsPrivateNetwork_def split: option.splits)
  show ?thesis using no_plugin_name [of ctx env checker "next" payload]
      payload_not_parsed [of ctx _ env payload checker "next"] 2 3
    by blast
qed

theorem CapabilityMiddleware_checks_only_parsed_witness:
  "CapabilityMiddleware example_env example_checker (\<lambda>c p. p)
     \<lparr>ctx_hostFunction = Some ''dns_lookup'', ctx_pluginName = None,
      ctx_ssrf_allow_private = None\<rparr>
     ''example.com''
   = (Inr ''example.com'',
      [NextCalled \<lparr>ctx_hostFunction = Some ''dns_lookup'', ctx_pluginName = None,
                   ctx_ssrf_allow_private = None\<rparr> ''example.com'']) \<and>
   CapabilityMiddleware example_env example_checker (\<lambda>c p. p)
     \<lparr>ctx_hostFunction = Some ''dns_lookup'', ctx_pluginName = Some ''dns'',
      ctx_ssrf_allow_private = None\<rparr> []
   = (Inr [],
      [AllowsPrivateNetworkCalled ''dns'',
       NextCalled \<lparr>ctx_hostFunction = None, ctx_pluginName = Some ''dns'',
                   ctx_ssrf_allow_private = Some False\<rparr> []]) \<and>
   fst (CapabilityMiddleware example_env example_checker (\<lambda>c p. p)
     \<lparr>ctx_hostFunction = Some ''dns_lookup'', ctx_pluginName = Some ''dns'',
      ctx_ssrf_allow_private = None\<rparr> ''example.com'')
   = Inl ''no capabilities granted: example.com:53'' \<and>
   payload_parses example_env ''dns_lookup'' ''example.com''"
proof -
  let ?c0 = "\<lparr>ctx_hostFunction = Some ''dns_lookup'', ctx_pluginName = None,
              ctx_ssrf_allow_private = None\<rparr>"
  let ?c1 = "\<lparr>ctx_hostFunction = Some ''dns_lookup'', ctx_pluginName = Some ''dns'',
              ctx_ssrf_allow_private = None\<rparr>"
  let ?next = "\<lambda>(c::Ctx) (p::string). p"
  note T0 = CapabilityMiddleware_checks_only_parsed
      [of ?c0 example_env example_checker ?next "''example.com''"]
  have n0: "ctx_pluginName ?c0 = None" by simp
  from T0 [THEN conjunct1, THEN mp, OF n0]
  have 1: "CapabilityMiddleware example_env example_checker ?next ?c0 ''example.com''
        = (Inr ''example.com'', [NextCalled ?c0 ''example.com''])" .
  note T1 = CapabilityMiddleware_checks_only_parsed
      [of ?c1 example_env example_checker ?next "[]"]
  have pn: "ctx_pluginName ?c1 = Some ''dns''" by simp
  have fn: "FunctionName ?c1 = ''dns_lookup''" by (simp add: FunctionName_def)
  have np: "\<not> payload_parses example_env (FunctionName ?c1) []"
    unfolding fn by (simp add: payload_parses_def example_env_def)
  have ap: "AllowsPrivateNetwork example_checker ''dns'' = (False, [])"
    by (simp add: AllowsPrivateNetwork_def example_checker_def)
  from T1 [THEN conjunct2, THEN conjunct1, THEN spec, of "''dns''", THEN mp,
      OF conjI [OF pn np], THEN conjunct1]
  have 2: "CapabilityMiddleware example_env example_checker ?next ?c1 []
        = (Inr [], [AllowsPrivateNetworkCalled ''dns'',
             NextCalled (WithValue_ssrf ?c1 False) []])"
    unfolding ap by simp
  have d: "fmt_int 53 = ''53''" by code_simp
  have 3: "fst (CapabilityMiddleware example_env example_checker ?next ?c1 ''example.com'')
        = Inl ''no capabilities granted: example.com:53''"
    by (simp add: CapabilityMiddleware_def example_env_def example_checker_def fn
        CheckNetwork_def handleDeny_def AllowsPrivateNetwork_def d Let_def)
  note T2 = CapabilityMiddleware_checks_only_parsed
      [of ?c1 example_env example_checker ?next "''example.com''"]
  have "\<exists>msg. fst (CapabilityMiddleware example_env example_checker ?next ?c1 ''example.com'')
          = Inl msg" using 3 by blast
  from T2 [THEN conjunct2, THEN conjunct2, THEN mp, OF disjI2 [OF disjI1 [OF this]]]
  have 4: "payload_parses example_env ''dns_lookup'' ''example.com''" unfolding fn by simp
  from 1 2 3 4 show ?thesis by (simp add: WithValue_ssrf_def)
qed

text \<open>
  C4 as stated fails for a plugin that has grants: with the function name
  \<open>dns_lookup\<close> and the empty payload, which does not parse as a DNS request, the
  policy is still asked for a decision (on \<open>127.0.0.1:0\<close>), and its answer reaches the
  inner handler in the context.
\<close>

theorem CapabilityMiddleware_policy_probe_counterexample:
  "\<not> payload_parses example_env ''dns_lookup'' [] \<and>
   CapabilityMiddleware example_env granting_checker read_ssrf_flag
     \<lparr>ctx_hostFunction = Some ''dns_lookup'', ctx_pluginName = Some ''dns'',
      ctx_ssrf_allow_private = None\<rparr> []
   = (Inr (Some True),
      [AllowsPrivateNetworkCalled ''dns'',
       PolicyEvaluateNetwork \<lparr>nr_Host = ''127.0.0.1'', nr_Port = 0\<rparr>,
       NextCalled \<lparr>ctx_hostFunction = None, ctx_pluginName = Some ''dns'',
                   ctx_ssrf_allow_private = Some True\<rparr> []]) \<and>
   is_policy_call (PolicyEvaluateNetwork \<lparr>nr_Host = ''127.0.0.1'', nr_Port = 0\<rparr>)"
  by (simp add: payload_parses_def example_env_def CapabilityMiddleware_def granting_checker_def
      example_policy_def AllowsPrivateNetwork_def private_probe_def FunctionName_def
      WithValue_ssrf_def finish_def EmptyGrantSet_def read_ssrf_flag_def Let_def)

end
